theory Spec2Isabelle
  imports Main "HOL-Library.Sublist"
begin

section \<open>The file viewer of \<^verbatim>\<open>src/fv.cpp\<close>\<close>

text \<open>
  The viewer keeps a document (a \<^verbatim>\<open>std::vector<std::string>\<close>) and a small amount of
  view state (\<^verbatim>\<open>topLine_\<close>, \<^verbatim>\<open>leftEdge_\<close>, \<^verbatim>\<open>matchingLine_\<close>, \<^verbatim>\<open>pattern_\<close> and three flags).
  Every key press goes through \<^verbatim>\<open>FileViewer::OnEvent\<close>.

  Conventions of the embedding:
  \<^item> a C++ \<^verbatim>\<open>int\<close> is an Isabelle \<open>int\<close>; the three conversions the source performs between
    integer types (\<^verbatim>\<open>int\<close> to \<^verbatim>\<open>std::size_t\<close> in a mixed comparison or subtraction,
    \<^verbatim>\<open>std::size_t\<close> to the iterator difference type, and \<^verbatim>\<open>static_cast<int>\<close>) are written
    out as reductions modulo a power of two;
  \<^item> an iterator of the vector is its offset from \<^verbatim>\<open>cbegin()\<close>, a reverse iterator is its
    offset from \<^verbatim>\<open>crbegin()\<close>, which is an offset into the reversed list;
  \<^item> an operation whose behaviour C++ leaves undefined returns \<open>Inl\<close> of a \<open>fault\<close>;
  \<^item> the terminal size, which \<^verbatim>\<open>ViewWidth\<close> and \<^verbatim>\<open>ViewHeight\<close> ask of the terminal library,
    is an argument of the commands that use it.

  Arithmetic on \<^verbatim>\<open>int\<close> itself is not bounded in the model: the results below are stated for
  documents of fewer than \<open>2 ^ 31\<close> lines, whose line numbers are \<^verbatim>\<open>int\<close> values. The width
  of \<^verbatim>\<open>std::size_t\<close> is taken as 64 bits; with 32 bits the same values result, since \<^verbatim>\<open>-1\<close>
  converts to the largest value of the type in both.
\<close>

subsection \<open>Integer conversions\<close>

definition size_t :: "int \<Rightarrow> int" where
  \<comment> \<open>conversion to the 64-bit unsigned \<^verbatim>\<open>std::size_t\<close>; also the result of its arithmetic\<close>
  "size_t x = x mod 2 ^ 64"

definition ptrdiff_t :: "int \<Rightarrow> int" where
  \<comment> \<open>conversion to the 64-bit signed \<^verbatim>\<open>difference_type\<close> of the iterators\<close>
  "ptrdiff_t x = (x + 2 ^ 63) mod 2 ^ 64 - 2 ^ 63"

definition int_cast :: "int \<Rightarrow> int" where
  \<comment> \<open>\<^verbatim>\<open>static_cast<int>\<close> to the 32-bit signed \<^verbatim>\<open>int\<close>\<close>
  "int_cast x = (x + 2 ^ 31) mod 2 ^ 32 - 2 ^ 31"

subsection \<open>Faults and results\<close>

datatype fault =
    IteratorOutOfRange  \<comment> \<open>an iterator outside \<^verbatim>\<open>[begin, end)\<close> is dereferenced\<close>
  | IndexOutOfRange     \<comment> \<open>\<^verbatim>\<open>lines_[line]\<close> with \<^verbatim>\<open>line\<close> outside the vector\<close>
  | ClampBoundsReversed \<comment> \<open>\<^verbatim>\<open>std::clamp(v, lo, hi)\<close> with \<^verbatim>\<open>hi < lo\<close>\<close>

definition and_then :: "fault + 'a \<Rightarrow> ('a \<Rightarrow> fault + 'b) \<Rightarrow> fault + 'b" where
  "and_then r f = (case r of Inl e \<Rightarrow> Inl e | Inr x \<Rightarrow> f x)"

subsection \<open>Library functions the source calls\<close>

fun str_find :: "string \<Rightarrow> string \<Rightarrow> nat option" where
  \<comment> \<open>\<^verbatim>\<open>line.find(pattern)\<close>: the first position of the pattern, \<open>None\<close> for \<^verbatim>\<open>npos\<close>\<close>
  "str_find [] pat = (if pat = [] then Some 0 else None)"
| "str_find (c # cs) pat =
     (if prefix pat (c # cs) then Some 0 else map_option Suc (str_find cs pat))"

definition matches :: "string \<Rightarrow> string \<Rightarrow> bool" where
  \<comment> \<open>the lambda of both searches: \<^verbatim>\<open>line.find(pattern) != std::string::npos\<close>\<close>
  "matches pat line = (str_find line pat \<noteq> None)"

function find_if :: "string list \<Rightarrow> int \<Rightarrow> int \<Rightarrow> (string \<Rightarrow> bool) \<Rightarrow> fault + int" where
  \<comment> \<open>\<^verbatim>\<open>std::find_if(first, last, pred)\<close> over the sequence \<open>v\<close>, iterators as offsets\<close>
  "find_if v it stop pred =
     (if it = stop then Inr stop
      else if it < 0 \<or> int (length v) \<le> it then Inl IteratorOutOfRange
      else if pred (v ! nat it) then Inr it
      else find_if v (it + 1) stop pred)"
  by pat_completeness auto
termination
  by (relation "measure (\<lambda>(v, it, stop, pred). nat (int (length v) - it))") auto

declare find_if.simps [simp del]

definition clamp :: "int \<Rightarrow> int \<Rightarrow> int \<Rightarrow> fault + int" where
  \<comment> \<open>\<^verbatim>\<open>std::clamp(v, lo, hi)\<close>; its behaviour is undefined when \<^verbatim>\<open>hi < lo\<close>\<close>
  "clamp v lo hi =
     (if hi < lo then Inl ClampBoundsReversed
      else Inr (if v < lo then lo else if hi < v then hi else v))"

subsection \<open>The searches\<close>

definition FindPreviousMatchingLine :: "string list \<Rightarrow> int \<Rightarrow> string \<Rightarrow> fault + int" where
  "FindPreviousMatchingLine lines current pattern =
     (if current < 1 then Inr (- 1)
      else
        and_then
          (find_if (rev lines)
             (ptrdiff_t (size_t (size_t (int (length lines) - 1) - size_t (current - 1))))
             (int (length lines)) (matches pattern))
          (\<lambda>it. if it \<noteq> int (length lines)
                then Inr (int_cast (int (length lines) - it) - 1)
                else Inr (- 1)))"

definition FindNextMatchingLine :: "string list \<Rightarrow> int \<Rightarrow> string \<Rightarrow> fault + int" where
  "FindNextMatchingLine lines current pattern =
     (if size_t current \<ge> size_t (int (length lines) - 1) then Inr (- 1)
      else
        and_then
          (find_if lines (current + 1) (int (length lines)) (matches pattern))
          (\<lambda>it. if it \<noteq> int (length lines) then Inr (int_cast it) else Inr (- 1)))"

definition LocatePreviousMatch :: "string list \<Rightarrow> int \<Rightarrow> string \<Rightarrow> fault + int" where
  "LocatePreviousMatch lines current pattern =
     (if pattern \<noteq> [] then
        and_then (FindPreviousMatchingLine lines current pattern) (\<lambda>line.
        and_then (if line = - 1
                  then FindPreviousMatchingLine lines (int_cast (int (length lines))) pattern
                  else Inr line) (\<lambda>line.
        Inr (if line \<noteq> - 1 then line else current)))
      else Inr current)"

definition LocateNextMatch :: "string list \<Rightarrow> int \<Rightarrow> string \<Rightarrow> fault + int" where
  "LocateNextMatch lines current pattern =
     (if pattern \<noteq> [] then
        and_then (FindNextMatchingLine lines current pattern) (\<lambda>line.
        and_then (if line = - 1
                  then FindNextMatchingLine lines (- 1) pattern
                  else Inr line) (\<lambda>line.
        Inr (if line \<noteq> - 1 then line else current)))
      else Inr current)"

definition Size :: "string list \<Rightarrow> int" where
  \<comment> \<open>\<^verbatim>\<open>Document::Size\<close>\<close>
  "Size lines = int_cast (int (length lines))"

definition Document_index :: "string list \<Rightarrow> int \<Rightarrow> fault + string" where
  \<comment> \<open>\<^verbatim>\<open>Document::operator[]\<close>: \<^verbatim>\<open>lines_[line]\<close>, the index converted to \<^verbatim>\<open>std::size_t\<close>\<close>
  "Document_index lines line =
     (if size_t line < int (length lines) then Inr (lines ! nat (size_t line))
      else Inl IndexOutOfRange)"

subsection \<open>The viewer's state and the terminal\<close>

record Dimensions =
  dimx :: int
  dimy :: int

record FileViewer =
  topLine :: int
  leftEdge :: int
  matchingLine :: int
  pattern :: string
  isCapturing :: bool
  showLineNumbers :: bool
  isFiltering :: bool

definition lineNumberMargin :: int where
  "lineNumberMargin = 8"

definition initial :: FileViewer where
  \<comment> \<open>the member initialisers of \<^verbatim>\<open>FileViewer\<close>\<close>
  "initial = \<lparr>topLine = 0, leftEdge = 0, matchingLine = - 1, pattern = [],
              isCapturing = False, showLineNumbers = True, isFiltering = False\<rparr>"

definition example_document :: "string list" where
  \<comment> \<open>the five-line document of the scenarios\<close>
  "example_document = [''alpha'', ''beta'', ''alpha2'', ''gamma'', ''alpha3'']"

definition ViewWidth :: "Dimensions \<Rightarrow> int" where
  "ViewWidth term = dimx term"

definition ViewHeight :: "Dimensions \<Rightarrow> int" where
  "ViewHeight term = dimy term"

datatype Event =
    Character string
  | Return | Escape | Backspace
  | ArrowUp | ArrowDown | ArrowLeft | ArrowRight
  | Home | End | PgUp | PgDown
  | CtrlHome | CtrlEnd | CtrlPgUp | CtrlPgDown
  | CtrlL | CtrlT
  | OtherSpecial

fun is_character :: "Event \<Rightarrow> bool" where
  "is_character (Character ch) = True"
| "is_character e = False"

fun character :: "Event \<Rightarrow> string" where
  "character (Character ch) = ch"
| "character e = []"

subsection \<open>The commands\<close>

definition UpdateMatchFromPattern :: "string list \<Rightarrow> FileViewer \<Rightarrow> fault + FileViewer" where
  "UpdateMatchFromPattern doc s =
     and_then (FindNextMatchingLine doc (topLine s) (pattern s))
       (\<lambda>line. Inr (s\<lparr>matchingLine := line\<rparr>))"

definition CmdStartCapture :: "FileViewer \<Rightarrow> FileViewer" where
  "CmdStartCapture s = s\<lparr>isCapturing := True, pattern := []\<rparr>"

definition CmdEndCapture :: "FileViewer \<Rightarrow> FileViewer" where
  "CmdEndCapture s =
     (if isCapturing s then s\<lparr>isCapturing := False, topLine := matchingLine s\<rparr> else s)"

definition CmdCancelCapture :: "FileViewer \<Rightarrow> FileViewer" where
  "CmdCancelCapture s =
     (if isCapturing s then s\<lparr>isCapturing := False, pattern := [], matchingLine := - 1\<rparr>
      else s)"

definition CmdBackspaceCapture :: "string list \<Rightarrow> FileViewer \<Rightarrow> fault + FileViewer" where
  "CmdBackspaceCapture doc s =
     (if isCapturing s then
        if length (pattern s) \<noteq> 0
        then UpdateMatchFromPattern doc (s\<lparr>pattern := butlast (pattern s)\<rparr>)
        else Inr s
      else Inr s)"

definition CmdPreviousMatch :: "string list \<Rightarrow> FileViewer \<Rightarrow> fault + FileViewer" where
  "CmdPreviousMatch doc s =
     and_then (LocatePreviousMatch doc (topLine s) (pattern s))
       (\<lambda>line. Inr (s\<lparr>topLine := line\<rparr>))"

definition CmdNextMatch :: "string list \<Rightarrow> FileViewer \<Rightarrow> fault + FileViewer" where
  "CmdNextMatch doc s =
     and_then (LocateNextMatch doc (topLine s) (pattern s))
       (\<lambda>line. Inr (s\<lparr>topLine := line\<rparr>))"

definition CmdPreviousLine :: "FileViewer \<Rightarrow> FileViewer" where
  "CmdPreviousLine s = s\<lparr>topLine := topLine s - 1\<rparr>"

definition CmdNextLine :: "FileViewer \<Rightarrow> FileViewer" where
  "CmdNextLine s = s\<lparr>topLine := topLine s + 1\<rparr>"

definition CmdPreviousColumn :: "FileViewer \<Rightarrow> FileViewer" where
  "CmdPreviousColumn s = s\<lparr>leftEdge := leftEdge s - 1\<rparr>"

definition CmdNextColumn :: "FileViewer \<Rightarrow> FileViewer" where
  "CmdNextColumn s = s\<lparr>leftEdge := leftEdge s + 1\<rparr>"

definition CmdStartOfDocument :: "FileViewer \<Rightarrow> FileViewer" where
  "CmdStartOfDocument s = s\<lparr>topLine := 0\<rparr>"

definition CmdEndOfDocument :: "Dimensions \<Rightarrow> string list \<Rightarrow> FileViewer \<Rightarrow> FileViewer" where
  "CmdEndOfDocument term doc s = s\<lparr>topLine := Size doc - (ViewHeight term - 1)\<rparr>"

definition CmdPreviousPage :: "Dimensions \<Rightarrow> FileViewer \<Rightarrow> FileViewer" where
  "CmdPreviousPage term s = s\<lparr>topLine := topLine s - (ViewHeight term - 1)\<rparr>"

definition CmdNextPage :: "Dimensions \<Rightarrow> FileViewer \<Rightarrow> FileViewer" where
  "CmdNextPage term s = s\<lparr>topLine := topLine s + (ViewHeight term - 1)\<rparr>"

function PreviousFilteredScan ::
  "string list \<Rightarrow> string \<Rightarrow> int \<Rightarrow> int \<Rightarrow> int \<Rightarrow> fault + int \<times> int" where
  \<comment> \<open>the \<^verbatim>\<open>while\<close> loop of \<^verbatim>\<open>CmdPreviousFilteredPage\<close>; returns \<open>(line, hits)\<close>\<close>
  "PreviousFilteredScan doc pat viewHeight line hits =
     (if line \<noteq> - 1 \<and> line \<ge> 0 \<and> hits < viewHeight - 1 then
        (case FindPreviousMatchingLine doc (line - 1) pat of
           Inl e \<Rightarrow> Inl e
         | Inr line' \<Rightarrow>
             PreviousFilteredScan doc pat viewHeight line'
               (if line' \<noteq> - 1 then hits + 1 else hits))
      else Inr (line, hits))"
  by pat_completeness auto
termination
  by (relation "measure (\<lambda>(doc, pat, viewHeight, line, hits).
        nat (2 * (viewHeight - 1 - hits)) + (if line = - 1 then 0 else 1))") auto

declare PreviousFilteredScan.simps [simp del]

definition CmdPreviousFilteredPage ::
  "Dimensions \<Rightarrow> string list \<Rightarrow> FileViewer \<Rightarrow> fault + FileViewer" where
  "CmdPreviousFilteredPage term doc s =
     and_then (PreviousFilteredScan doc (pattern s) (ViewHeight term) (topLine s) 0)
       (\<lambda>(line, hits). Inr (s\<lparr>topLine := (if hits = ViewHeight term - 1 then line else 0)\<rparr>))"

function NextFilteredScan ::
  "string list \<Rightarrow> string \<Rightarrow> int \<Rightarrow> int \<Rightarrow> int \<Rightarrow> fault + int \<times> int" where
  \<comment> \<open>the \<^verbatim>\<open>while\<close> loop of \<^verbatim>\<open>CmdNextFilteredPage\<close>; returns \<open>(line, hits)\<close>\<close>
  "NextFilteredScan doc pat viewHeight line hits =
     (if line \<noteq> - 1 \<and> line < Size doc \<and> hits < viewHeight - 1 then
        (case FindNextMatchingLine doc (line + 1) pat of
           Inl e \<Rightarrow> Inl e
         | Inr line' \<Rightarrow>
             NextFilteredScan doc pat viewHeight line'
               (if line' \<noteq> - 1 then hits + 1 else hits))
      else Inr (line, hits))"
  by pat_completeness auto
termination
  by (relation "measure (\<lambda>(doc, pat, viewHeight, line, hits).
        nat (2 * (viewHeight - 1 - hits)) + (if line = - 1 then 0 else 1))") auto

declare NextFilteredScan.simps [simp del]

definition CmdNextFilteredPage ::
  "Dimensions \<Rightarrow> string list \<Rightarrow> FileViewer \<Rightarrow> fault + FileViewer" where
  "CmdNextFilteredPage term doc s =
     and_then (NextFilteredScan doc (pattern s) (ViewHeight term) (topLine s) 0)
       (\<lambda>(line, hits). Inr (if hits = ViewHeight term - 1 then s\<lparr>topLine := line\<rparr> else s))"

definition CmdLeftmostColumn :: "FileViewer \<Rightarrow> FileViewer" where
  "CmdLeftmostColumn s = s\<lparr>leftEdge := 0\<rparr>"

definition row_counts :: "string list \<Rightarrow> bool \<Rightarrow> string \<Rightarrow> int \<Rightarrow> fault + bool" where
  \<comment> \<open>the condition of the loop body of \<^verbatim>\<open>CmdRightmostColumn\<close>, evaluated left to right:
      \<^verbatim>\<open>!isFiltering_\<close>, or else \<^verbatim>\<open>!pattern_.empty()\<close> and the line at \<^verbatim>\<open>line\<close> contains the
      pattern\<close>
  "row_counts doc filtering pat line =
     (if \<not> filtering then Inr True
      else if pat = [] then Inr False
      else and_then (Document_index doc line) (\<lambda>l. Inr (matches pat l)))"

function RightmostScan ::
  "string list \<Rightarrow> bool \<Rightarrow> string \<Rightarrow> int \<Rightarrow> int \<Rightarrow> int \<Rightarrow> fault + int" where
  \<comment> \<open>the \<^verbatim>\<open>for\<close> loop of \<^verbatim>\<open>CmdRightmostColumn\<close> under the flag \<^verbatim>\<open>isFiltering_\<close> and the
      pattern \<^verbatim>\<open>pattern_\<close>; returns \<^verbatim>\<open>length\<close>\<close>
  "RightmostScan doc filtering pat line numLines len =
     (if numLines > 0 \<and> line < Size doc then
        (case row_counts doc filtering pat line of
           Inl e \<Rightarrow> Inl e
         | Inr True \<Rightarrow>
             (case Document_index doc line of
                Inl e \<Rightarrow> Inl e
              | Inr l \<Rightarrow>
                  RightmostScan doc filtering pat (line + 1) (numLines - 1)
                    (max len (int_cast (int (length l)))))
         | Inr False \<Rightarrow> RightmostScan doc filtering pat (line + 1) numLines len)
      else Inr len)"
  by pat_completeness auto
termination
  by (relation "measure (\<lambda>(doc, filtering, pat, line, numLines, len). nat (Size doc - line))")
    auto

declare RightmostScan.simps [simp del]

definition CmdRightmostColumn ::
  "Dimensions \<Rightarrow> string list \<Rightarrow> FileViewer \<Rightarrow> fault + FileViewer" where
  "CmdRightmostColumn term doc s =
     and_then
       (RightmostScan doc (isFiltering s) (pattern s) (topLine s) (ViewHeight term) 0)
       (\<lambda>len.
          let margin = (if showLineNumbers s then lineNumberMargin else 0)
          in Inr (if len > ViewWidth term - margin
                  then s\<lparr>leftEdge := len - ViewWidth term + margin\<rparr>
                  else s\<lparr>leftEdge := 0\<rparr>))"

definition CmdToggleLineNumbers :: "FileViewer \<Rightarrow> FileViewer" where
  "CmdToggleLineNumbers s = s\<lparr>showLineNumbers := \<not> showLineNumbers s\<rparr>"

definition CmdToggleFiltering :: "FileViewer \<Rightarrow> FileViewer" where
  "CmdToggleFiltering s = s\<lparr>isFiltering := \<not> isFiltering s\<rparr>"

subsection \<open>The event handler\<close>

definition on_character :: "string list \<Rightarrow> string \<Rightarrow> FileViewer \<Rightarrow> fault + FileViewer" where
  \<comment> \<open>the branch \<^verbatim>\<open>e.is_character()\<close> of \<^verbatim>\<open>OnEvent\<close>\<close>
  "on_character doc ch s =
     (if isCapturing s then UpdateMatchFromPattern doc (s\<lparr>pattern := pattern s @ ch\<rparr>)
      else if ch = ''/'' then Inr (CmdStartCapture s)
      else if ch = ''n'' then CmdNextMatch doc s
      else if ch = ''p'' then CmdPreviousMatch doc s
      else Inr s)"

definition on_capture_key :: "string list \<Rightarrow> Event \<Rightarrow> FileViewer \<Rightarrow> fault + FileViewer" where
  \<comment> \<open>the first \<^verbatim>\<open>if\<close> chain of the special branch: Return, Escape, Backspace\<close>
  "on_capture_key doc e s =
     (if e = Return then Inr (CmdEndCapture s)
      else if e = Escape then Inr (CmdCancelCapture s)
      else if e = Backspace then CmdBackspaceCapture doc s
      else Inr s)"

definition on_navigation_key ::
  "Dimensions \<Rightarrow> string list \<Rightarrow> Event \<Rightarrow> FileViewer \<Rightarrow> fault + FileViewer" where
  \<comment> \<open>the second \<^verbatim>\<open>if\<close> chain of the special branch, from ArrowUp to CtrlT\<close>
  "on_navigation_key term doc e s =
     (if e = ArrowUp then
        (if isFiltering s \<and> pattern s \<noteq> [] then CmdPreviousMatch doc s
         else Inr (CmdPreviousLine s))
      else if e = ArrowDown then
        (if isFiltering s \<and> pattern s \<noteq> [] then CmdNextMatch doc s
         else Inr (CmdNextLine s))
      else if e = ArrowLeft then Inr (CmdPreviousColumn s)
      else if e = ArrowRight then Inr (CmdNextColumn s)
      else if e = CtrlHome then Inr (CmdStartOfDocument s)
      else if e = CtrlEnd then Inr (CmdEndOfDocument term doc s)
      else if e = PgUp then
        (if \<not> isFiltering s then Inr (CmdPreviousPage term s)
         else CmdPreviousFilteredPage term doc s)
      else if e = PgDown then
        (if \<not> isFiltering s then Inr (CmdNextPage term s)
         else CmdNextFilteredPage term doc s)
      else if e = Home then Inr (CmdLeftmostColumn s)
      else if e = End then CmdRightmostColumn term doc s
      else if e = CtrlL then Inr (CmdToggleLineNumbers s)
      else if e = CtrlT then Inr (CmdToggleFiltering s)
      else Inr s)"

definition clamp_view :: "Dimensions \<Rightarrow> string list \<Rightarrow> FileViewer \<Rightarrow> fault + FileViewer" where
  \<comment> \<open>the two \<^verbatim>\<open>std::clamp\<close> statements that end \<^verbatim>\<open>OnEvent\<close>\<close>
  "clamp_view term doc s =
     and_then (clamp (leftEdge s) 0 (ViewWidth term - 1)) (\<lambda>le.
     and_then (clamp (topLine s) 0 (Size doc - 1)) (\<lambda>tl.
     Inr (s\<lparr>leftEdge := le, topLine := tl\<rparr>)))"

definition OnEvent ::
  "Dimensions \<Rightarrow> string list \<Rightarrow> Event \<Rightarrow> FileViewer \<Rightarrow> fault + FileViewer" where
  "OnEvent term doc e s =
     and_then
       (if is_character e then on_character doc (character e) s
        else and_then (on_capture_key doc e s) (on_navigation_key term doc e))
       (clamp_view term doc)"

subsection \<open>The hits of a filtered page\<close>

text \<open>
  The spec describes filtered paging by its hits: starting at the top line, PageDown advances
  repeatedly to the next matching line (\<^verbatim>\<open>findNextMatchingLine(line+1, pattern)\<close>, which scans
  strictly after \<^verbatim>\<open>line+1\<close>), and PageUp is the mirror with \<^verbatim>\<open>findPreviousMatchingLine\<close>. The
  predicates below say this of the document alone, without the loops: which line is the hit
  that follows a position, when there is none, and when a list of lines is the run of hits
  from a position.
\<close>

definition is_previous_hit :: "string list \<Rightarrow> string \<Rightarrow> int \<Rightarrow> int \<Rightarrow> bool" where
  \<comment> \<open>\<open>h\<close> is the nearest matching line strictly before \<open>line - 1\<close>\<close>
  "is_previous_hit doc pat line h =
     (0 \<le> h \<and> h < line - 1 \<and> matches pat (doc ! nat h)
      \<and> (\<forall>j \<in> {h<..<line - 1}. \<not> matches pat (doc ! nat j)))"

definition no_previous_hit :: "string list \<Rightarrow> string \<Rightarrow> int \<Rightarrow> bool" where
  \<comment> \<open>no line strictly before \<open>line - 1\<close> matches\<close>
  "no_previous_hit doc pat line = (\<forall>j \<in> {0..<line - 1}. \<not> matches pat (doc ! nat j))"

fun previous_hits :: "string list \<Rightarrow> string \<Rightarrow> int \<Rightarrow> int list \<Rightarrow> bool" where
  \<comment> \<open>\<open>hs\<close> is a run of successive hits of the backward scan that starts at \<open>line\<close>\<close>
  "previous_hits doc pat line [] = True"
| "previous_hits doc pat line (h # hs) =
     (is_previous_hit doc pat line h \<and> previous_hits doc pat h hs)"

definition is_next_hit :: "string list \<Rightarrow> string \<Rightarrow> int \<Rightarrow> int \<Rightarrow> bool" where
  \<comment> \<open>\<open>h\<close> is the nearest matching line strictly after \<open>line + 1\<close>\<close>
  "is_next_hit doc pat line h =
     (line + 1 < h \<and> h < int (length doc) \<and> matches pat (doc ! nat h)
      \<and> (\<forall>j \<in> {line + 1<..<h}. \<not> matches pat (doc ! nat j)))"

definition no_next_hit :: "string list \<Rightarrow> string \<Rightarrow> int \<Rightarrow> bool" where
  \<comment> \<open>no line strictly after \<open>line + 1\<close> matches\<close>
  "no_next_hit doc pat line =
     (\<forall>j \<in> {line + 1<..<int (length doc)}. \<not> matches pat (doc ! nat j))"

fun next_hits :: "string list \<Rightarrow> string \<Rightarrow> int \<Rightarrow> int list \<Rightarrow> bool" where
  \<comment> \<open>\<open>hs\<close> is a run of successive hits of the forward scan that starts at \<open>line\<close>\<close>
  "next_hits doc pat line [] = True"
| "next_hits doc pat line (h # hs) = (is_next_hit doc pat line h \<and> next_hits doc pat h hs)"

section \<open>Basic facts\<close>

lemma and_then_Inl [simp]: "and_then (Inl e) f = Inl e"
  by (simp add: and_then_def)

lemma and_then_Inr [simp]: "and_then (Inr x) f = f x"
  by (simp add: and_then_def)

lemma isl_and_then: "(\<And>x. isl (f x)) \<Longrightarrow> isl (and_then r f)"
  by (cases r) simp_all

lemma size_t_upper: "size_t x \<le> 2 ^ 64 - 1"
proof -
  have "x mod 2 ^ 64 < (2 ^ 64 :: int)"
    by (rule pos_mod_bound) simp
  then show ?thesis
    by (simp add: size_t_def)
qed

lemma size_t_minus_one: "size_t (- 1) = 2 ^ 64 - 1"
  by (simp add: size_t_def)

text \<open>
  The comparison \<^verbatim>\<open>current >= lines.size() - 1\<close> is made in \<^verbatim>\<open>std::size_t\<close>, where \<^verbatim>\<open>-1\<close> is
  the largest value: a search that starts before the first line finds nothing, whatever the
  document holds.
\<close>

lemma FindNextMatchingLine_minus_one: "FindNextMatchingLine lines (- 1) pat = Inr (- 1)"
  using size_t_upper [of "int (length lines) - 1"]
  by (simp add: FindNextMatchingLine_def size_t_minus_one)

lemma clamp_view_empty: "isl (clamp_view term [] s)"
  by (simp add: clamp_view_def clamp_def Size_def int_cast_def and_then_def split: sum.splits)

subsection \<open>Conversions in range\<close>

lemma size_t_id: "0 \<le> x \<Longrightarrow> x < 2 ^ 64 \<Longrightarrow> size_t x = x"
  by (simp add: size_t_def)

lemma int_cast_id: "- (2 ^ 31) \<le> x \<Longrightarrow> x < 2 ^ 31 \<Longrightarrow> int_cast x = x"
  by (simp add: int_cast_def)

lemma ptrdiff_t_id: "- (2 ^ 63) \<le> x \<Longrightarrow> x < 2 ^ 63 \<Longrightarrow> ptrdiff_t x = x"
  by (simp add: ptrdiff_t_def)

lemma Size_eq: "length doc < 2 ^ 31 \<Longrightarrow> Size doc = int (length doc)"
  unfolding Size_def by (intro int_cast_id) auto

lemma reverse_offset:
  assumes "1 \<le> c" "c \<le> n" "n < 2 ^ 31"
  shows "ptrdiff_t (size_t (size_t (n - 1) - size_t (c - 1))) = n - c"
proof -
  have "size_t (n - 1) = n - 1"
    using assms by (intro size_t_id) auto
  moreover have "size_t (c - 1) = c - 1"
    using assms by (intro size_t_id) auto
  moreover have "size_t (n - c) = n - c"
    using assms by (intro size_t_id) auto
  moreover have "ptrdiff_t (n - c) = n - c"
    using assms by (intro ptrdiff_t_id) auto
  ultimately show ?thesis by simp
qed

lemma str_find_empty_pattern: "str_find line [] = Some 0"
  by (cases line) simp_all

lemma matches_empty_pattern: "matches [] line"
  by (simp add: matches_def str_find_empty_pattern)

lemma matches_iff_sublist: "matches pat line \<longleftrightarrow> sublist pat line"
  by (induction line) (auto simp: matches_def sublist_Cons_right)

text \<open>
  What \<^verbatim>\<open>std::find_if\<close> returns when it starts inside the sequence and runs to its end: the
  first offset whose element satisfies the predicate, or the end.
\<close>

lemma find_if_scan:
  assumes "0 \<le> it" "it \<le> int (length v)"
  shows "\<exists>r. find_if v it (int (length v)) P = Inr r \<and> it \<le> r \<and> r \<le> int (length v)
           \<and> (r < int (length v) \<longrightarrow> P (v ! nat r))
           \<and> (\<forall>j. it \<le> j \<and> j < r \<longrightarrow> \<not> P (v ! nat j))"
  using assms
proof (induction "nat (int (length v) - it)" arbitrary: it)
  case 0
  then have "it = int (length v)" by simp
  then show ?case by (subst find_if.simps) auto
next
  case (Suc k)
  then have lt: "it < int (length v)" by linarith
  show ?case
  proof (cases "P (v ! nat it)")
    case True
    with lt Suc.prems show ?thesis
      by (subst find_if.simps) auto
  next
    case False
    have "k = nat (int (length v) - (it + 1))" using Suc.hyps(2) by linarith
    moreover have "0 \<le> it + 1" "it + 1 \<le> int (length v)" using lt Suc.prems by simp_all
    ultimately obtain r where r: "find_if v (it + 1) (int (length v)) P = Inr r"
        "it + 1 \<le> r" "r \<le> int (length v)" "r < int (length v) \<longrightarrow> P (v ! nat r)"
        "\<forall>j. it + 1 \<le> j \<and> j < r \<longrightarrow> \<not> P (v ! nat j)"
      using Suc.hyps(1) [of "it + 1"] by blast
    have step: "find_if v it (int (length v)) P = find_if v (it + 1) (int (length v)) P"
      using lt Suc.prems False by (subst find_if.simps) simp
    have "\<forall>j. it \<le> j \<and> j < r \<longrightarrow> \<not> P (v ! nat j)"
    proof (intro allI impI)
      fix j assume j: "it \<le> j \<and> j < r"
      show "\<not> P (v ! nat j)"
      proof (cases "j = it")
        case True then show ?thesis using False by simp
      next
        case False
        then have "it + 1 \<le> j" using j by simp
        then show ?thesis using r(5) j by blast
      qed
    qed
    then show ?thesis using step r by auto
  qed
qed


text \<open>
  The two searches on a document that is not empty, from a line of the document (or one past
  it): no fault, and the result is \<^verbatim>\<open>-1\<close> or the nearest matching line in the direction of
  the search.
\<close>

lemma FindNextMatchingLine_scan:
  assumes len: "length lines < 2 ^ 31" and ne: "lines \<noteq> []"
    and c: "0 \<le> c" "c \<le> int (length lines)"
  shows "\<exists>r. FindNextMatchingLine lines c pat = Inr r
           \<and> (r = - 1 \<or> (c < r \<and> r < int (length lines) \<and> matches pat (lines ! nat r)))
           \<and> (\<forall>j. c < j \<and> j < (if r = - 1 then int (length lines) else r)
                  \<longrightarrow> \<not> matches pat (lines ! nat j))"
proof -
  let ?n = "int (length lines)"
  have n: "1 \<le> ?n" "?n < 2 ^ 31" using len ne by (simp_all add: Suc_le_eq)
  have sc: "size_t c = c"
    using c n by (intro size_t_id) auto
  have sn: "size_t (?n - 1) = ?n - 1"
    using n by (intro size_t_id) auto
  show ?thesis
  proof (cases "?n - 1 \<le> c")
    case True
    then have "FindNextMatchingLine lines c pat = Inr (- 1)"
      by (simp add: FindNextMatchingLine_def sc sn)
    moreover have "\<forall>j. c < j \<and> j < ?n \<longrightarrow> \<not> matches pat (lines ! nat j)"
      using True by auto
    ultimately show ?thesis by simp
  next
    case False
    obtain r where r: "find_if lines (c + 1) ?n (matches pat) = Inr r"
        "c + 1 \<le> r" "r \<le> ?n" "r < ?n \<longrightarrow> matches pat (lines ! nat r)"
        "\<forall>j. c + 1 \<le> j \<and> j < r \<longrightarrow> \<not> matches pat (lines ! nat j)"
      using find_if_scan [of "c + 1" lines "matches pat"] c False by auto
    show ?thesis
    proof (cases "r = ?n")
      case True
      then have "FindNextMatchingLine lines c pat = Inr (- 1)"
        using False r(1) by (simp add: FindNextMatchingLine_def sc sn)
      then show ?thesis using r(5) True by auto
    next
      case neq: False
      have "int_cast r = r" using r(2,3) c n by (intro int_cast_id) auto
      then have "FindNextMatchingLine lines c pat = Inr r"
        using False r(1) neq by (simp add: FindNextMatchingLine_def sc sn)
      moreover have "r \<noteq> - 1" using r(2) c by simp
      ultimately show ?thesis using r neq by auto
    qed
  qed
qed

lemma FindPreviousMatchingLine_scan:
  assumes len: "length lines < 2 ^ 31" and c: "c \<le> int (length lines)"
  shows "\<exists>r. FindPreviousMatchingLine lines c pat = Inr r
           \<and> (r = - 1 \<or> (0 \<le> r \<and> r < c \<and> matches pat (lines ! nat r)))
           \<and> (\<forall>j. r < j \<and> j < c \<longrightarrow> \<not> matches pat (lines ! nat j))"
proof (cases "c < 1")
  case True
  then show ?thesis by (auto simp: FindPreviousMatchingLine_def)
next
  case False
  let ?n = "int (length lines)"
  have n: "?n < 2 ^ 31" using len by simp
  have off: "ptrdiff_t (size_t (size_t (?n - 1) - size_t (c - 1))) = ?n - c"
    using False c n by (intro reverse_offset) simp_all
  obtain k where k: "find_if (rev lines) (?n - c) ?n (matches pat) = Inr k"
      "?n - c \<le> k" "k \<le> ?n" "k < ?n \<longrightarrow> matches pat (rev lines ! nat k)"
      "\<forall>j. ?n - c \<le> j \<and> j < k \<longrightarrow> \<not> matches pat (rev lines ! nat j)"
    using find_if_scan [of "?n - c" "rev lines" "matches pat"] c False by auto
  have nth: "rev lines ! nat (?n - 1 - j) = lines ! nat j" if "0 \<le> j" "j < ?n" for j
  proof -
    have "nat (?n - 1 - j) < length lines" using that by linarith
    moreover have "length lines - Suc (nat (?n - 1 - j)) = nat j" using that by linarith
    ultimately show ?thesis by (simp add: rev_nth)
  qed
  have below: "\<not> matches pat (lines ! nat j)" if "?n - 1 - k < j" "j < c" for j
  proof -
    have j: "0 \<le> j" "j < ?n" using that k(3) c by linarith+
    have "?n - c \<le> ?n - 1 - j \<and> ?n - 1 - j < k" using that by linarith
    then have "\<not> matches pat (rev lines ! nat (?n - 1 - j))" using k(5) by blast
    then show ?thesis using nth [OF j] by simp
  qed
  show ?thesis
  proof (cases "k = ?n")
    case True
    then have "FindPreviousMatchingLine lines c pat = Inr (- 1)"
      using False k(1) by (simp add: FindPreviousMatchingLine_def off)
    moreover have "\<forall>j. - 1 < j \<and> j < c \<longrightarrow> \<not> matches pat (lines ! nat j)"
      using below True by simp
    ultimately show ?thesis by simp
  next
    case neq: False
    let ?r = "?n - k - 1"
    have r: "0 \<le> ?r" "?r < c" using k(2,3) neq by linarith+
    have "int_cast (?n - k) = ?n - k" using k(2,3) n c False by (intro int_cast_id) auto
    then have "FindPreviousMatchingLine lines c pat = Inr ?r"
      using False k(1) neq by (simp add: FindPreviousMatchingLine_def off)
    moreover have "matches pat (lines ! nat ?r)"
    proof -
      have "matches pat (rev lines ! nat k)" using k(3,4) neq by simp
      moreover have "rev lines ! nat (?n - 1 - ?r) = lines ! nat ?r"
        using r c by (intro nth) linarith+
      ultimately show ?thesis by simp
    qed
    moreover have "\<forall>j. ?r < j \<and> j < c \<longrightarrow> \<not> matches pat (lines ! nat j)"
      using below by simp
    ultimately show ?thesis using r by simp
  qed
qed

text \<open>Every line contains the empty pattern, so a search for it stops at the next line.\<close>

lemma FindNextMatchingLine_empty_pattern:
  assumes "length lines < 2 ^ 31" "0 \<le> c" "c < int (length lines) - 1"
  shows "FindNextMatchingLine lines c [] = Inr (c + 1)"
proof -
  have ne: "lines \<noteq> []" using assms by auto
  obtain r where r: "FindNextMatchingLine lines c [] = Inr r"
      "r = - 1 \<or> (c < r \<and> r < int (length lines) \<and> matches [] (lines ! nat r))"
      "\<forall>j. c < j \<and> j < (if r = - 1 then int (length lines) else r)
            \<longrightarrow> \<not> matches [] (lines ! nat j)"
    using FindNextMatchingLine_scan [OF assms(1) ne assms(2), of "[]"] assms(3) by auto
  have "\<not> (c < c + 1 \<and> c + 1 < (if r = - 1 then int (length lines) else r))"
    using r(3) matches_empty_pattern by blast
  then have "r = c + 1" using r(2) assms by (auto split: if_splits)
  then show ?thesis using r(1) by simp
qed

subsection \<open>The scenario document\<close>

lemma example_scan:
  "FindNextMatchingLine example_document 1 ''alpha'' = Inr 2"
  "FindNextMatchingLine example_document 3 ''alpha'' = Inr 4"
  by (simp_all add: FindNextMatchingLine_def example_document_def size_t_def find_if.simps
      matches_def int_cast_def)

lemma example_NextFilteredScan:
  "NextFilteredScan example_document ''alpha'' 3 0 0 = Inr (4, 2)"
proof -
  have sz: "Size example_document = 5"
    by (simp add: Size_def example_document_def int_cast_def)
  have "NextFilteredScan example_document ''alpha'' 3 0 0
        = NextFilteredScan example_document ''alpha'' 3 2 1"
    by (subst NextFilteredScan.simps) (simp add: sz example_scan)
  also have "\<dots> = NextFilteredScan example_document ''alpha'' 3 4 2"
    by (subst NextFilteredScan.simps) (simp add: sz example_scan)
  also have "\<dots> = Inr (4, 2)"
    by (subst NextFilteredScan.simps) (simp add: sz)
  finally show ?thesis .
qed

subsection \<open>Special keys outside the capture chain\<close>

text \<open>
  The second chain of \<^verbatim>\<open>OnEvent\<close> and the final clamps neither read nor write
  \<^verbatim>\<open>isCapturing_\<close>, and they leave \<^verbatim>\<open>pattern_\<close> and \<^verbatim>\<open>matchingLine_\<close> alone.
\<close>

lemma on_navigation_key_capturing:
  "on_navigation_key term doc e (s\<lparr>isCapturing := b\<rparr>)
   = map_sum id (\<lambda>s'. s'\<lparr>isCapturing := b\<rparr>) (on_navigation_key term doc e s)"
  by (cases e)
    (simp_all add: on_navigation_key_def CmdPreviousMatch_def CmdNextMatch_def
      CmdPreviousLine_def CmdNextLine_def CmdPreviousColumn_def CmdNextColumn_def
      CmdStartOfDocument_def CmdEndOfDocument_def CmdPreviousPage_def CmdNextPage_def
      CmdPreviousFilteredPage_def CmdNextFilteredPage_def CmdLeftmostColumn_def
      CmdRightmostColumn_def CmdToggleLineNumbers_def CmdToggleFiltering_def
      and_then_def Let_def split: sum.splits prod.splits)

lemma clamp_view_capturing:
  "clamp_view term doc (s\<lparr>isCapturing := b\<rparr>) = map_sum id (\<lambda>s'. s'\<lparr>isCapturing := b\<rparr>) (clamp_view term doc s)"
  by (simp add: clamp_view_def clamp_def)

lemma on_navigation_key_keeps:
  "on_navigation_key term doc e s = Inr s'
   \<Longrightarrow> pattern s' = pattern s \<and> matchingLine s' = matchingLine s \<and> isCapturing s' = isCapturing s"
  by (cases e)
    (auto simp: on_navigation_key_def CmdPreviousMatch_def CmdNextMatch_def
      CmdPreviousLine_def CmdNextLine_def CmdPreviousColumn_def CmdNextColumn_def
      CmdStartOfDocument_def CmdEndOfDocument_def CmdPreviousPage_def CmdNextPage_def
      CmdPreviousFilteredPage_def CmdNextFilteredPage_def CmdLeftmostColumn_def
      CmdRightmostColumn_def CmdToggleLineNumbers_def CmdToggleFiltering_def
      and_then_def Let_def split: sum.splits prod.splits if_splits)

lemma clamp_view_keeps:
  "clamp_view term doc s = Inr s'
   \<Longrightarrow> pattern s' = pattern s \<and> matchingLine s' = matchingLine s \<and> isCapturing s' = isCapturing s"
  by (auto simp: clamp_view_def clamp_def split: if_splits)

lemma on_capture_key_other:
  "e \<noteq> Return \<Longrightarrow> e \<noteq> Escape \<Longrightarrow> e \<noteq> Backspace \<Longrightarrow> on_capture_key doc e s = Inr s"
  by (simp add: on_capture_key_def)

lemma OnEvent_special:
  assumes "\<not> is_character e" "e \<noteq> Return" "e \<noteq> Escape" "e \<noteq> Backspace"
  shows "OnEvent term doc e s = and_then (on_navigation_key term doc e s) (clamp_view term doc)"
  using assms by (simp add: OnEvent_def on_capture_key_other)

subsection \<open>The backward scan of the filtered page\<close>

text \<open>
  From a line of the document the loop of \<^verbatim>\<open>CmdPreviousFilteredPage\<close> ends without a fault.
  It ends where it started (no iteration), at \<^verbatim>\<open>-1\<close>, or at a matching line at least two
  lines above the start; it ends at \<^verbatim>\<open>-1\<close> only with fewer hits than a page.
\<close>

lemma PreviousFilteredScan_result:
  assumes "length doc < 2 ^ 31" "- 1 \<le> line" "line < int (length doc)"
    and "line = - 1 \<longrightarrow> hits < viewHeight - 1"
  shows "\<exists>line' hits'. PreviousFilteredScan doc pat viewHeight line hits = Inr (line', hits')
           \<and> - 1 \<le> line' \<and> line' < int (length doc)
           \<and> (line' = - 1 \<longrightarrow> hits' < viewHeight - 1)
           \<and> ((line' = line \<and> hits' = hits) \<or> line' = - 1
                \<or> (0 \<le> line' \<and> line' < line - 1 \<and> matches pat (doc ! nat line')))"
  using assms
proof (induction doc pat viewHeight line hits rule: PreviousFilteredScan.induct)
  case (1 doc pat viewHeight line hits)
  show ?case
  proof (cases "line \<noteq> - 1 \<and> line \<ge> 0 \<and> hits < viewHeight - 1")
    case False
    then have "PreviousFilteredScan doc pat viewHeight line hits = Inr (line, hits)"
      by (subst PreviousFilteredScan.simps) auto
    then show ?thesis using "1.prems" by simp
  next
    case True
    obtain r where r: "FindPreviousMatchingLine doc (line - 1) pat = Inr r"
        "r = - 1 \<or> (0 \<le> r \<and> r < line - 1 \<and> matches pat (doc ! nat r))"
      using FindPreviousMatchingLine_scan [OF "1.prems"(1), of "line - 1" pat] "1.prems"(3)
      by auto
    let ?h = "if r \<noteq> - 1 then hits + 1 else hits"
    have step: "PreviousFilteredScan doc pat viewHeight line hits
                = PreviousFilteredScan doc pat viewHeight r ?h"
      using True r(1) by (subst PreviousFilteredScan.simps) simp
    have pre: "- 1 \<le> r" "r < int (length doc)" "r = - 1 \<longrightarrow> ?h < viewHeight - 1"
      using r(2) True "1.prems"(3) by auto
    obtain line' hits' where res:
        "PreviousFilteredScan doc pat viewHeight r ?h = Inr (line', hits')"
        "- 1 \<le> line'" "line' < int (length doc)" "line' = - 1 \<longrightarrow> hits' < viewHeight - 1"
        "(line' = r \<and> hits' = ?h) \<or> line' = - 1
           \<or> (0 \<le> line' \<and> line' < r - 1 \<and> matches pat (doc ! nat line'))"
      using "1.IH" [OF True r(1) "1.prems"(1) pre] by blast
    have "(line' = line \<and> hits' = hits) \<or> line' = - 1
           \<or> (0 \<le> line' \<and> line' < line - 1 \<and> matches pat (doc ! nat line'))"
      using res(5) r(2) by auto
    then show ?thesis using step res(1-4) by simp
  qed
qed

subsection \<open>Events on a document that is not empty\<close>

text \<open>
  From a state whose top line is a line of the document, no command reads outside the
  document, and the two clamps that end \<^verbatim>\<open>OnEvent\<close> have their bounds in order when the terminal
  is at least one column wide. So every event ends in a state with
  \<open>0 \<le> leftEdge \<le> viewWidth - 1\<close> and \<open>0 \<le> topLine \<le> size - 1\<close>; the initial state is such a
  state, and so is every state reached from it.
\<close>

lemma LocateNextMatch_result:
  assumes "length lines < 2 ^ 31" "0 \<le> c" "c < int (length lines)"
  shows "\<exists>r. LocateNextMatch lines c pat = Inr r \<and> 0 \<le> r \<and> r < int (length lines)"
proof -
  have ne: "lines \<noteq> []" using assms(2,3) by auto
  obtain r where r: "FindNextMatchingLine lines c pat = Inr r"
      "r = - 1 \<or> (c < r \<and> r < int (length lines) \<and> matches pat (lines ! nat r))"
    using FindNextMatchingLine_scan [OF assms(1) ne assms(2), of pat] assms(3) by auto
  show ?thesis
    using r assms(2,3)
    by (auto simp: LocateNextMatch_def FindNextMatchingLine_minus_one)
qed

lemma LocatePreviousMatch_result:
  assumes "length lines < 2 ^ 31" "0 \<le> c" "c < int (length lines)"
  shows "\<exists>r. LocatePreviousMatch lines c pat = Inr r \<and> 0 \<le> r \<and> r < int (length lines)"
proof -
  let ?n = "int (length lines)"
  have cast: "int_cast ?n = ?n" using assms(1) by (intro int_cast_id) auto
  obtain r where r: "FindPreviousMatchingLine lines c pat = Inr r"
      "r = - 1 \<or> (0 \<le> r \<and> r < c \<and> matches pat (lines ! nat r))"
    using FindPreviousMatchingLine_scan [OF assms(1), of c pat] assms(3) by auto
  obtain w where w: "FindPreviousMatchingLine lines ?n pat = Inr w"
      "w = - 1 \<or> (0 \<le> w \<and> w < ?n \<and> matches pat (lines ! nat w))"
    using FindPreviousMatchingLine_scan [OF assms(1), of ?n pat] by auto
  show ?thesis
    using r w assms(2,3)
    by (auto simp: LocatePreviousMatch_def cast)
qed

lemma NextFilteredScan_result:
  assumes "length doc < 2 ^ 31" "- 1 \<le> line" "line < int (length doc)"
    and "line = - 1 \<longrightarrow> hits < viewHeight - 1"
  shows "\<exists>line' hits'. NextFilteredScan doc pat viewHeight line hits = Inr (line', hits')
           \<and> - 1 \<le> line' \<and> line' < int (length doc)
           \<and> (line' = - 1 \<longrightarrow> hits' < viewHeight - 1)"
  using assms
proof (induction doc pat viewHeight line hits rule: NextFilteredScan.induct)
  case (1 doc pat viewHeight line hits)
  have sz: "Size doc = int (length doc)" using "1.prems"(1) by (rule Size_eq)
  show ?case
  proof (cases "line \<noteq> - 1 \<and> line < Size doc \<and> hits < viewHeight - 1")
    case False
    then have "NextFilteredScan doc pat viewHeight line hits = Inr (line, hits)"
      by (subst NextFilteredScan.simps) auto
    then show ?thesis using "1.prems" by simp
  next
    case True
    have ne: "doc \<noteq> []" using "1.prems"(2,3) True by auto
    obtain r where r: "FindNextMatchingLine doc (line + 1) pat = Inr r"
        "r = - 1 \<or> (line + 1 < r \<and> r < int (length doc) \<and> matches pat (doc ! nat r))"
      using FindNextMatchingLine_scan [OF "1.prems"(1) ne, of "line + 1" pat] "1.prems"(2,3) True
      by auto
    let ?h = "if r \<noteq> - 1 then hits + 1 else hits"
    have step: "NextFilteredScan doc pat viewHeight line hits
                = NextFilteredScan doc pat viewHeight r ?h"
      using True r(1) by (subst NextFilteredScan.simps) simp
    have pre: "- 1 \<le> r" "r < int (length doc)" "r = - 1 \<longrightarrow> ?h < viewHeight - 1"
      using r(2) True "1.prems"(2,3) by auto
    show ?thesis
      using "1.IH" [OF True r(1) "1.prems"(1) pre] step by simp
  qed
qed

lemma Document_index_in_range:
  assumes "length doc < 2 ^ 31" "0 \<le> line" "line < int (length doc)"
  shows "Document_index doc line = Inr (doc ! nat line)"
proof -
  have "size_t line = line" using assms by (intro size_t_id) auto
  then show ?thesis using assms(3) by (simp add: Document_index_def)
qed

lemma RightmostScan_result:
  assumes "length doc < 2 ^ 31" "0 \<le> line"
  shows "\<exists>len'. RightmostScan doc filtering pat line numLines len = Inr len'"
  using assms
proof (induction doc filtering pat line numLines len rule: RightmostScan.induct)
  case (1 doc filtering pat line numLines len)
  have sz: "Size doc = int (length doc)" using "1.prems"(1) by (rule Size_eq)
  show ?case
  proof (cases "numLines > 0 \<and> line < Size doc")
    case False
    then show ?thesis by (subst RightmostScan.simps) auto
  next
    case True
    have idx: "Document_index doc line = Inr (doc ! nat line)"
      using "1.prems" True sz by (intro Document_index_in_range) auto
    have nxt: "0 \<le> line + 1" using "1.prems"(2) by simp
    have "\<exists>b. row_counts doc filtering pat line = Inr b"
      by (cases filtering; cases "pat = []") (auto simp: row_counts_def idx)
    then obtain b where b: "row_counts doc filtering pat line = Inr b" ..
    show ?thesis
    proof (cases b)
      case True
      have "\<exists>len'. RightmostScan doc filtering pat (line + 1) (numLines - 1)
              (max len (int_cast (int (length (doc ! nat line))))) = Inr len'"
        using "1.IH"(1) [OF \<open>numLines > 0 \<and> line < Size doc\<close> _ _ idx "1.prems"(1) nxt] b True
        by simp
      then show ?thesis
        using \<open>numLines > 0 \<and> line < Size doc\<close> b True idx
        by (subst RightmostScan.simps) simp
    next
      case False
      have "\<exists>len'. RightmostScan doc filtering pat (line + 1) numLines len = Inr len'"
        using "1.IH"(2) [OF \<open>numLines > 0 \<and> line < Size doc\<close> _ _ "1.prems"(1) nxt] b False
        by simp
      then show ?thesis
        using \<open>numLines > 0 \<and> line < Size doc\<close> b False
        by (subst RightmostScan.simps) simp
    qed
  qed
qed


lemma clamp_view_result:
  assumes "doc \<noteq> []" "length doc < 2 ^ 31" "1 \<le> dimx term"
  shows "\<exists>s'. clamp_view term doc s = Inr s'
           \<and> 0 \<le> leftEdge s' \<and> leftEdge s' \<le> dimx term - 1
           \<and> 0 \<le> topLine s' \<and> topLine s' \<le> int (length doc) - 1"
proof -
  have sz: "Size doc = int (length doc)" using assms(2) by (rule Size_eq)
  have "0 \<le> int (length doc) - 1" using assms(1) by (cases doc) simp_all
  then show ?thesis
    using assms(3) by (simp add: clamp_view_def clamp_def ViewWidth_def sz)
qed

lemma UpdateMatchFromPattern_result:
  assumes "length doc < 2 ^ 31" "0 \<le> topLine s" "topLine s < int (length doc)"
  shows "\<exists>s1. UpdateMatchFromPattern doc s = Inr s1"
proof -
  have ne: "doc \<noteq> []" using assms(2,3) by auto
  obtain r where "FindNextMatchingLine doc (topLine s) (pattern s) = Inr r"
    using FindNextMatchingLine_scan [OF assms(1) ne assms(2), of "pattern s"] assms(3) by auto
  then show ?thesis by (simp add: UpdateMatchFromPattern_def)
qed

lemma on_character_result:
  assumes "length doc < 2 ^ 31" "0 \<le> topLine s" "topLine s < int (length doc)"
  shows "\<exists>s1. on_character doc ch s = Inr s1"
proof -
  have upd: "\<exists>s1. UpdateMatchFromPattern doc (s\<lparr>pattern := pattern s @ ch\<rparr>) = Inr s1"
    using assms by (intro UpdateMatchFromPattern_result) simp_all
  obtain r where "LocateNextMatch doc (topLine s) (pattern s) = Inr r"
    using LocateNextMatch_result [OF assms] by blast
  then have nxt: "\<exists>s1. CmdNextMatch doc s = Inr s1" by (simp add: CmdNextMatch_def)
  obtain r where "LocatePreviousMatch doc (topLine s) (pattern s) = Inr r"
    using LocatePreviousMatch_result [OF assms] by blast
  then have prv: "\<exists>s1. CmdPreviousMatch doc s = Inr s1" by (simp add: CmdPreviousMatch_def)
  show ?thesis using upd nxt prv by (simp add: on_character_def)
qed

lemma on_navigation_key_result:
  assumes "length doc < 2 ^ 31" "0 \<le> topLine s" "topLine s < int (length doc)"
  shows "\<exists>s1. on_navigation_key term doc e s = Inr s1"
proof -
  obtain r where "LocateNextMatch doc (topLine s) (pattern s) = Inr r"
    using LocateNextMatch_result [OF assms] by blast
  then have nxt: "\<exists>s1. CmdNextMatch doc s = Inr s1" by (simp add: CmdNextMatch_def)
  obtain r where "LocatePreviousMatch doc (topLine s) (pattern s) = Inr r"
    using LocatePreviousMatch_result [OF assms] by blast
  then have prv: "\<exists>s1. CmdPreviousMatch doc s = Inr s1" by (simp add: CmdPreviousMatch_def)
  obtain l h where
    "PreviousFilteredScan doc (pattern s) (ViewHeight term) (topLine s) 0 = Inr (l, h)"
    using PreviousFilteredScan_result [OF assms(1), of "topLine s" 0 "ViewHeight term" "pattern s"]
      assms(2,3) by auto
  then have pgup: "\<exists>s1. CmdPreviousFilteredPage term doc s = Inr s1"
    by (simp add: CmdPreviousFilteredPage_def)
  obtain l h where
    "NextFilteredScan doc (pattern s) (ViewHeight term) (topLine s) 0 = Inr (l, h)"
    using NextFilteredScan_result [OF assms(1), of "topLine s" 0 "ViewHeight term" "pattern s"]
      assms(2,3) by auto
  then have pgdn: "\<exists>s1. CmdNextFilteredPage term doc s = Inr s1"
    by (simp add: CmdNextFilteredPage_def)
  obtain len where
    "RightmostScan doc (isFiltering s) (pattern s) (topLine s) (ViewHeight term) 0 = Inr len"
    using RightmostScan_result [OF assms(1,2)] by blast
  then have rightmost: "\<exists>s1. CmdRightmostColumn term doc s = Inr s1"
    by (simp add: CmdRightmostColumn_def Let_def)
  show ?thesis
    using nxt prv pgup pgdn rightmost by (cases e) (simp_all add: on_navigation_key_def)
qed

lemma on_capture_key_result:
  assumes "length doc < 2 ^ 31" "0 \<le> topLine s" "topLine s < int (length doc)"
  shows "\<exists>s1. on_capture_key doc e s = Inr s1
           \<and> (e \<noteq> Return \<and> e \<noteq> Escape \<and> e \<noteq> Backspace \<longrightarrow> s1 = s)"
proof -
  have "\<exists>s1. UpdateMatchFromPattern doc (s\<lparr>pattern := butlast (pattern s)\<rparr>) = Inr s1"
    using assms by (intro UpdateMatchFromPattern_result) simp_all
  then have "\<exists>s1. CmdBackspaceCapture doc s = Inr s1"
    by (simp add: CmdBackspaceCapture_def)
  then show ?thesis by (simp add: on_capture_key_def)
qed

lemma on_navigation_key_capture_keys:
  "e = Return \<or> e = Escape \<or> e = Backspace \<Longrightarrow> on_navigation_key term doc e s = Inr s"
  by (auto simp: on_navigation_key_def)

lemma OnEvent_clamp_invariant:
  assumes "length doc < 2 ^ 31" "1 \<le> dimx term"
    and "0 \<le> topLine s" "topLine s < int (length doc)"
  shows "\<exists>s'. OnEvent term doc e s = Inr s'
           \<and> 0 \<le> leftEdge s' \<and> leftEdge s' \<le> dimx term - 1
           \<and> 0 \<le> topLine s' \<and> topLine s' \<le> int (length doc) - 1"
proof -
  have ne: "doc \<noteq> []" using assms(3,4) by auto
  have top: "length doc < 2 ^ 31" "0 \<le> topLine s" "topLine s < int (length doc)"
    using assms by simp_all
  have "\<exists>s1. (if is_character e then on_character doc (character e) s
              else and_then (on_capture_key doc e s) (on_navigation_key term doc e)) = Inr s1"
  proof (cases "is_character e")
    case True
    then show ?thesis using on_character_result [OF top] by simp
  next
    case False
    obtain s1 where s1: "on_capture_key doc e s = Inr s1"
        "e \<noteq> Return \<and> e \<noteq> Escape \<and> e \<noteq> Backspace \<longrightarrow> s1 = s"
      using on_capture_key_result [OF top] by blast
    have "\<exists>s2. on_navigation_key term doc e s1 = Inr s2"
    proof (cases "e = Return \<or> e = Escape \<or> e = Backspace")
      case True
      then show ?thesis by (simp add: on_navigation_key_capture_keys)
    next
      case False
      then have "s1 = s" using s1(2) by simp
      then show ?thesis using on_navigation_key_result [OF top] by simp
    qed
    then show ?thesis using False s1(1) by simp
  qed
  then obtain s1 where "OnEvent term doc e s = clamp_view term doc s1"
    by (auto simp: OnEvent_def)
  then show ?thesis using clamp_view_result [OF ne assms(1,2), of s1] by simp
qed

subsection \<open>The loops of the filtered pages find the hits\<close>

text \<open>
  From a line of the document, each loop visits the run of hits the predicates describe: it
  stops after \<^verbatim>\<open>viewHeight - 1\<close> hits at the last of them, or, when the document has no further
  hit, at \<^verbatim>\<open>-1\<close> with the hits counted so far. The two events then differ only in what they
  do with a count that is not \<^verbatim>\<open>viewHeight - 1\<close>.
\<close>

lemma previous_hits_last:
  "previous_hits doc pat line hs \<Longrightarrow> 0 \<le> line \<Longrightarrow>
     0 \<le> last (line # hs) \<and> last (line # hs) \<le> line"
proof (induction hs arbitrary: line)
  case Nil
  then show ?case by simp
next
  case (Cons h hs)
  then have h: "0 \<le> h" "h < line - 1" "previous_hits doc pat h hs"
    by (simp_all add: is_previous_hit_def)
  from Cons.IH [OF h(3) h(1)] h(2) show ?case by simp
qed

lemma next_hits_last:
  "next_hits doc pat line hs \<Longrightarrow> line < int (length doc) \<Longrightarrow>
     line \<le> last (line # hs) \<and> last (line # hs) < int (length doc)"
proof (induction hs arbitrary: line)
  case Nil
  then show ?case by simp
next
  case (Cons h hs)
  then have h: "line + 1 < h" "h < int (length doc)" "next_hits doc pat h hs"
    by (simp_all add: is_next_hit_def)
  from Cons.IH [OF h(3) h(2)] h(1) show ?case by simp
qed

lemma PreviousFilteredScan_hits:
  assumes "length doc < 2 ^ 31" "0 \<le> line" "line < int (length doc)"
  shows "\<exists>hs. previous_hits doc pat line hs
           \<and> (hs \<noteq> [] \<longrightarrow> hits + int (length hs) \<le> viewHeight - 1)
           \<and> (hits + int (length hs) < viewHeight - 1 \<longrightarrow>
                 no_previous_hit doc pat (last (line # hs))
               \<and> PreviousFilteredScan doc pat viewHeight line hits
                   = Inr (- 1, hits + int (length hs)))
           \<and> (\<not> hits + int (length hs) < viewHeight - 1 \<longrightarrow>
                 PreviousFilteredScan doc pat viewHeight line hits
                   = Inr (last (line # hs), hits + int (length hs)))"
  using assms
proof (induction doc pat viewHeight line hits rule: PreviousFilteredScan.induct)
  case (1 doc pat viewHeight line hits)
  show ?case
  proof (cases "hits < viewHeight - 1")
    case False
    then have "PreviousFilteredScan doc pat viewHeight line hits = Inr (line, hits)"
      by (subst PreviousFilteredScan.simps) auto
    then have "previous_hits doc pat line []
        \<and> ([] \<noteq> ([] :: int list) \<longrightarrow> hits + int (length ([] :: int list)) \<le> viewHeight - 1)
        \<and> (hits + int (length ([] :: int list)) < viewHeight - 1 \<longrightarrow>
              no_previous_hit doc pat (last (line # []))
            \<and> PreviousFilteredScan doc pat viewHeight line hits
                = Inr (- 1, hits + int (length ([] :: int list))))
        \<and> (\<not> hits + int (length ([] :: int list)) < viewHeight - 1 \<longrightarrow>
              PreviousFilteredScan doc pat viewHeight line hits
                = Inr (last (line # []), hits + int (length ([] :: int list))))"
      using False by simp
    then show ?thesis by (rule exI)
  next
    case True
    then have cond: "line \<noteq> - 1 \<and> line \<ge> 0 \<and> hits < viewHeight - 1"
      using "1.prems"(2) by simp
    obtain r where r: "FindPreviousMatchingLine doc (line - 1) pat = Inr r"
        "r = - 1 \<or> (0 \<le> r \<and> r < line - 1 \<and> matches pat (doc ! nat r))"
        "\<forall>j. r < j \<and> j < line - 1 \<longrightarrow> \<not> matches pat (doc ! nat j)"
      using FindPreviousMatchingLine_scan [OF "1.prems"(1), of "line - 1" pat] "1.prems"(3)
      by auto
    show ?thesis
    proof (cases "r = - 1")
      case True
      have "PreviousFilteredScan doc pat viewHeight line hits
            = PreviousFilteredScan doc pat viewHeight (- 1) hits"
        using cond r(1) True by (subst PreviousFilteredScan.simps) simp
      also have "\<dots> = Inr (- 1, hits)"
        by (subst PreviousFilteredScan.simps) simp
      finally have scan: "PreviousFilteredScan doc pat viewHeight line hits = Inr (- 1, hits)" .
      have none: "no_previous_hit doc pat line"
        using r(3) True by (simp add: no_previous_hit_def)
      have "previous_hits doc pat line []
        \<and> ([] \<noteq> ([] :: int list) \<longrightarrow> hits + int (length ([] :: int list)) \<le> viewHeight - 1)
        \<and> (hits + int (length ([] :: int list)) < viewHeight - 1 \<longrightarrow>
              no_previous_hit doc pat (last (line # []))
            \<and> PreviousFilteredScan doc pat viewHeight line hits
                = Inr (- 1, hits + int (length ([] :: int list))))
        \<and> (\<not> hits + int (length ([] :: int list)) < viewHeight - 1 \<longrightarrow>
              PreviousFilteredScan doc pat viewHeight line hits
                = Inr (last (line # []), hits + int (length ([] :: int list))))"
        using scan none cond by simp
      then show ?thesis by (rule exI)
    next
      case False
      then have rr: "0 \<le> r" "r < line - 1" "matches pat (doc ! nat r)"
        using r(2) by auto
      have hit: "is_previous_hit doc pat line r"
        using rr r(3) by (simp add: is_previous_hit_def)
      have step: "PreviousFilteredScan doc pat viewHeight line hits
                  = PreviousFilteredScan doc pat viewHeight r (hits + 1)"
        using cond r(1) False by (subst PreviousFilteredScan.simps) simp
      have "r < int (length doc)" using rr(2) "1.prems"(3) by simp
      from "1.IH" [OF cond r(1) "1.prems"(1) rr(1) this]
      obtain hs where hs: "previous_hits doc pat r hs"
          "hs \<noteq> [] \<longrightarrow> hits + 1 + int (length hs) \<le> viewHeight - 1"
          "hits + 1 + int (length hs) < viewHeight - 1 \<longrightarrow>
             no_previous_hit doc pat (last (r # hs))
           \<and> PreviousFilteredScan doc pat viewHeight r (hits + 1)
               = Inr (- 1, hits + 1 + int (length hs))"
          "\<not> hits + 1 + int (length hs) < viewHeight - 1 \<longrightarrow>
             PreviousFilteredScan doc pat viewHeight r (hits + 1)
               = Inr (last (r # hs), hits + 1 + int (length hs))"
        using False by auto
      have "previous_hits doc pat line (r # hs)
        \<and> (r # hs \<noteq> [] \<longrightarrow> hits + int (length (r # hs)) \<le> viewHeight - 1)
        \<and> (hits + int (length (r # hs)) < viewHeight - 1 \<longrightarrow>
              no_previous_hit doc pat (last (line # r # hs))
            \<and> PreviousFilteredScan doc pat viewHeight line hits
                = Inr (- 1, hits + int (length (r # hs))))
        \<and> (\<not> hits + int (length (r # hs)) < viewHeight - 1 \<longrightarrow>
              PreviousFilteredScan doc pat viewHeight line hits
                = Inr (last (line # r # hs), hits + int (length (r # hs))))"
        using hit hs cond step by (auto simp: algebra_simps)
      then show ?thesis by (rule exI)
    qed
  qed
qed


lemma NextFilteredScan_hits:
  assumes "length doc < 2 ^ 31" "0 \<le> line" "line < int (length doc)"
  shows "\<exists>hs. next_hits doc pat line hs
           \<and> (hs \<noteq> [] \<longrightarrow> hits + int (length hs) \<le> viewHeight - 1)
           \<and> (hits + int (length hs) < viewHeight - 1 \<longrightarrow>
                 no_next_hit doc pat (last (line # hs))
               \<and> NextFilteredScan doc pat viewHeight line hits
                   = Inr (- 1, hits + int (length hs)))
           \<and> (\<not> hits + int (length hs) < viewHeight - 1 \<longrightarrow>
                 NextFilteredScan doc pat viewHeight line hits
                   = Inr (last (line # hs), hits + int (length hs)))"
  using assms
proof (induction doc pat viewHeight line hits rule: NextFilteredScan.induct)
  case (1 doc pat viewHeight line hits)
  have sz: "Size doc = int (length doc)" using "1.prems"(1) by (rule Size_eq)
  have ne: "doc \<noteq> []" using "1.prems"(2,3) by auto
  show ?case
  proof (cases "hits < viewHeight - 1")
    case False
    then have "NextFilteredScan doc pat viewHeight line hits = Inr (line, hits)"
      by (subst NextFilteredScan.simps) auto
    then have "next_hits doc pat line []
        \<and> ([] \<noteq> ([] :: int list) \<longrightarrow> hits + int (length ([] :: int list)) \<le> viewHeight - 1)
        \<and> (hits + int (length ([] :: int list)) < viewHeight - 1 \<longrightarrow>
              no_next_hit doc pat (last (line # []))
            \<and> NextFilteredScan doc pat viewHeight line hits
                = Inr (- 1, hits + int (length ([] :: int list))))
        \<and> (\<not> hits + int (length ([] :: int list)) < viewHeight - 1 \<longrightarrow>
              NextFilteredScan doc pat viewHeight line hits
                = Inr (last (line # []), hits + int (length ([] :: int list))))"
      using False by simp
    then show ?thesis by (rule exI)
  next
    case True
    then have cond: "line \<noteq> - 1 \<and> line < Size doc \<and> hits < viewHeight - 1"
      using "1.prems"(2,3) sz by simp
    obtain r where r: "FindNextMatchingLine doc (line + 1) pat = Inr r"
        "r = - 1 \<or> (line + 1 < r \<and> r < int (length doc) \<and> matches pat (doc ! nat r))"
        "\<forall>j. line + 1 < j \<and> j < (if r = - 1 then int (length doc) else r)
              \<longrightarrow> \<not> matches pat (doc ! nat j)"
      using FindNextMatchingLine_scan [OF "1.prems"(1) ne, of "line + 1" pat] "1.prems"(2,3)
      by auto
    show ?thesis
    proof (cases "r = - 1")
      case True
      have "NextFilteredScan doc pat viewHeight line hits
            = NextFilteredScan doc pat viewHeight (- 1) hits"
        using cond r(1) True by (subst NextFilteredScan.simps) simp
      also have "\<dots> = Inr (- 1, hits)"
        by (subst NextFilteredScan.simps) simp
      finally have scan: "NextFilteredScan doc pat viewHeight line hits = Inr (- 1, hits)" .
      have none: "no_next_hit doc pat line"
        using r(3) True by (simp add: no_next_hit_def)
      have "next_hits doc pat line []
        \<and> ([] \<noteq> ([] :: int list) \<longrightarrow> hits + int (length ([] :: int list)) \<le> viewHeight - 1)
        \<and> (hits + int (length ([] :: int list)) < viewHeight - 1 \<longrightarrow>
              no_next_hit doc pat (last (line # []))
            \<and> NextFilteredScan doc pat viewHeight line hits
                = Inr (- 1, hits + int (length ([] :: int list))))
        \<and> (\<not> hits + int (length ([] :: int list)) < viewHeight - 1 \<longrightarrow>
              NextFilteredScan doc pat viewHeight line hits
                = Inr (last (line # []), hits + int (length ([] :: int list))))"
        using scan none cond by simp
      then show ?thesis by (rule exI)
    next
      case False
      then have rr: "line + 1 < r" "r < int (length doc)" "matches pat (doc ! nat r)"
        using r(2) by auto
      have hit: "is_next_hit doc pat line r"
        using rr r(3) False by (simp add: is_next_hit_def)
      have step: "NextFilteredScan doc pat viewHeight line hits
                  = NextFilteredScan doc pat viewHeight r (hits + 1)"
        using cond r(1) False by (subst NextFilteredScan.simps) simp
      have "0 \<le> r" using rr(1) "1.prems"(2) by simp
      from "1.IH" [OF cond r(1) "1.prems"(1) this rr(2)]
      obtain hs where hs: "next_hits doc pat r hs"
          "hs \<noteq> [] \<longrightarrow> hits + 1 + int (length hs) \<le> viewHeight - 1"
          "hits + 1 + int (length hs) < viewHeight - 1 \<longrightarrow>
             no_next_hit doc pat (last (r # hs))
           \<and> NextFilteredScan doc pat viewHeight r (hits + 1)
               = Inr (- 1, hits + 1 + int (length hs))"
          "\<not> hits + 1 + int (length hs) < viewHeight - 1 \<longrightarrow>
             NextFilteredScan doc pat viewHeight r (hits + 1)
               = Inr (last (r # hs), hits + 1 + int (length hs))"
        using False by auto
      have "next_hits doc pat line (r # hs)
        \<and> (r # hs \<noteq> [] \<longrightarrow> hits + int (length (r # hs)) \<le> viewHeight - 1)
        \<and> (hits + int (length (r # hs)) < viewHeight - 1 \<longrightarrow>
              no_next_hit doc pat (last (line # r # hs))
            \<and> NextFilteredScan doc pat viewHeight line hits
                = Inr (- 1, hits + int (length (r # hs))))
        \<and> (\<not> hits + int (length (r # hs)) < viewHeight - 1 \<longrightarrow>
              NextFilteredScan doc pat viewHeight line hits
                = Inr (last (line # r # hs), hits + int (length (r # hs))))"
        using hit hs cond step by (auto simp: algebra_simps)
      then show ?thesis by (rule exI)
    qed
  qed
qed

lemma clamp_view_topLine:
  assumes "length doc < 2 ^ 31" "1 \<le> dimx term" "0 \<le> topLine s" "topLine s < int (length doc)"
  shows "\<exists>s'. clamp_view term doc s = Inr s' \<and> topLine s' = topLine s"
proof -
  have sz: "Size doc = int (length doc)" using assms(1) by (rule Size_eq)
  have ne: "doc \<noteq> []" using assms(3,4) by auto
  show ?thesis
    using assms(2,3,4) ne by (simp add: clamp_view_def clamp_def ViewWidth_def sz)
qed

lemma filtered_PageUp_hits:
  assumes "isFiltering s" "length doc < 2 ^ 31"
    and "0 \<le> topLine s" "topLine s < int (length doc)" "1 \<le> dimx term"
  shows "\<exists>hs s'. OnEvent term doc PgUp s = Inr s'
           \<and> previous_hits doc (pattern s) (topLine s) hs
           \<and> (hs \<noteq> [] \<longrightarrow> int (length hs) \<le> dimy term - 1)
           \<and> (int (length hs) < dimy term - 1 \<longrightarrow>
                 no_previous_hit doc (pattern s) (last (topLine s # hs)))
           \<and> (int (length hs) = dimy term - 1 \<longrightarrow> topLine s' = last (topLine s # hs))
           \<and> (int (length hs) \<noteq> dimy term - 1 \<longrightarrow> topLine s' = 0)"
proof -
  obtain hs where hs: "previous_hits doc (pattern s) (topLine s) hs"
      "hs \<noteq> [] \<longrightarrow> int (length hs) \<le> dimy term - 1"
      "int (length hs) < dimy term - 1 \<longrightarrow>
         no_previous_hit doc (pattern s) (last (topLine s # hs))
       \<and> PreviousFilteredScan doc (pattern s) (dimy term) (topLine s) 0
           = Inr (- 1, int (length hs))"
      "\<not> int (length hs) < dimy term - 1 \<longrightarrow>
         PreviousFilteredScan doc (pattern s) (dimy term) (topLine s) 0
           = Inr (last (topLine s # hs), int (length hs))"
    using PreviousFilteredScan_hits [OF assms(2,3,4), of "pattern s" 0 "dimy term"] by auto
  define top where "top = (if int (length hs) = dimy term - 1 then last (topLine s # hs) else 0)"
  have lst: "0 \<le> last (topLine s # hs)" "last (topLine s # hs) \<le> topLine s"
    using previous_hits_last [OF hs(1) assms(3)] by simp_all
  have cmd: "CmdPreviousFilteredPage term doc s = Inr (s\<lparr>topLine := top\<rparr>)"
  proof (cases "int (length hs) < dimy term - 1")
    case True
    then show ?thesis using hs(3) by (simp add: CmdPreviousFilteredPage_def ViewHeight_def top_def)
  next
    case False
    then show ?thesis using hs(4) by (simp add: CmdPreviousFilteredPage_def ViewHeight_def top_def)
  qed
  have "0 \<le> top" "top < int (length doc)"
    using lst assms(3,4) by (auto simp: top_def)
  then obtain s' where s': "clamp_view term doc (s\<lparr>topLine := top\<rparr>) = Inr s'" "topLine s' = top"
    using clamp_view_topLine [OF assms(2,5), of "s\<lparr>topLine := top\<rparr>"] by auto
  have ev: "OnEvent term doc PgUp s = Inr s'"
    using assms(1) s'(1)
    by (simp add: OnEvent_def on_capture_key_def on_navigation_key_def cmd)
  have "OnEvent term doc PgUp s = Inr s'
           \<and> previous_hits doc (pattern s) (topLine s) hs
           \<and> (hs \<noteq> [] \<longrightarrow> int (length hs) \<le> dimy term - 1)
           \<and> (int (length hs) < dimy term - 1 \<longrightarrow>
                 no_previous_hit doc (pattern s) (last (topLine s # hs)))
           \<and> (int (length hs) = dimy term - 1 \<longrightarrow> topLine s' = last (topLine s # hs))
           \<and> (int (length hs) \<noteq> dimy term - 1 \<longrightarrow> topLine s' = 0)"
    using ev hs(1,2,3) s'(2) by (simp add: top_def)
  then show ?thesis by blast
qed

lemma filtered_PageDown_hits:
  assumes "isFiltering s" "length doc < 2 ^ 31"
    and "0 \<le> topLine s" "topLine s < int (length doc)" "1 \<le> dimx term"
  shows "\<exists>hs s'. OnEvent term doc PgDown s = Inr s'
           \<and> next_hits doc (pattern s) (topLine s) hs
           \<and> (hs \<noteq> [] \<longrightarrow> int (length hs) \<le> dimy term - 1)
           \<and> (int (length hs) < dimy term - 1 \<longrightarrow>
                 no_next_hit doc (pattern s) (last (topLine s # hs)))
           \<and> (int (length hs) = dimy term - 1 \<longrightarrow> topLine s' = last (topLine s # hs))
           \<and> (int (length hs) \<noteq> dimy term - 1 \<longrightarrow> topLine s' = topLine s)"
proof -
  obtain hs where hs: "next_hits doc (pattern s) (topLine s) hs"
      "hs \<noteq> [] \<longrightarrow> int (length hs) \<le> dimy term - 1"
      "int (length hs) < dimy term - 1 \<longrightarrow>
         no_next_hit doc (pattern s) (last (topLine s # hs))
       \<and> NextFilteredScan doc (pattern s) (dimy term) (topLine s) 0
           = Inr (- 1, int (length hs))"
      "\<not> int (length hs) < dimy term - 1 \<longrightarrow>
         NextFilteredScan doc (pattern s) (dimy term) (topLine s) 0
           = Inr (last (topLine s # hs), int (length hs))"
    using NextFilteredScan_hits [OF assms(2,3,4), of "pattern s" 0 "dimy term"] by auto
  define top where
    "top = (if int (length hs) = dimy term - 1 then last (topLine s # hs) else topLine s)"
  have lst: "topLine s \<le> last (topLine s # hs)" "last (topLine s # hs) < int (length doc)"
    using next_hits_last [OF hs(1) assms(4)] by simp_all
  have cmd: "CmdNextFilteredPage term doc s = Inr (s\<lparr>topLine := top\<rparr>)"
  proof (cases "int (length hs) < dimy term - 1")
    case True
    then show ?thesis using hs(3) by (simp add: CmdNextFilteredPage_def ViewHeight_def top_def)
  next
    case False
    then show ?thesis using hs(4) by (simp add: CmdNextFilteredPage_def ViewHeight_def top_def)
  qed
  have "0 \<le> top" "top < int (length doc)"
    using lst assms(3,4) by (auto simp: top_def)
  then obtain s' where s': "clamp_view term doc (s\<lparr>topLine := top\<rparr>) = Inr s'" "topLine s' = top"
    using clamp_view_topLine [OF assms(2,5), of "s\<lparr>topLine := top\<rparr>"] by auto
  have ev: "OnEvent term doc PgDown s = Inr s'"
    using assms(1) s'(1)
    by (simp add: OnEvent_def on_capture_key_def on_navigation_key_def cmd)
  have "OnEvent term doc PgDown s = Inr s'
           \<and> next_hits doc (pattern s) (topLine s) hs
           \<and> (hs \<noteq> [] \<longrightarrow> int (length hs) \<le> dimy term - 1)
           \<and> (int (length hs) < dimy term - 1 \<longrightarrow>
                 no_next_hit doc (pattern s) (last (topLine s # hs)))
           \<and> (int (length hs) = dimy term - 1 \<longrightarrow> topLine s' = last (topLine s # hs))
           \<and> (int (length hs) \<noteq> dimy term - 1 \<longrightarrow> topLine s' = topLine s)"
    using ev hs(1,2,3) s'(2) by (simp add: top_def)
  then show ?thesis by blast
qed

section \<open>The searches of the document\<close>

text \<open>
  Claim C1 (wrap-around of \<^verbatim>\<open>LocateNextMatch\<close>). The claim expects
  \<^verbatim>\<open>LocateNextMatch(4, "alpha")\<close> to be 0 on the five-line example document. The code returns
  4: the retry \<^verbatim>\<open>FindNextMatchingLine(lines, -1, pattern)\<close> compares \<^verbatim>\<open>-1\<close> as a \<^verbatim>\<open>std::size_t\<close>
  and returns \<^verbatim>\<open>-1\<close> at once, for every document and pattern, so the search never wraps.
  On \<^verbatim>\<open>["alpha", "beta"]\<close> the result from line 1 is line 1, which does not hold the pattern.
\<close>

theorem LocateNextMatch_never_wraps:
  "LocateNextMatch example_document 4 ''alpha'' = Inr 4
   \<and> LocateNextMatch [''alpha'', ''beta''] 1 ''alpha'' = Inr 1
   \<and> FindNextMatchingLine lines (- 1) pat = Inr (- 1)"
  by (simp add: LocateNextMatch_def FindNextMatchingLine_minus_one example_document_def)
    (simp add: FindNextMatchingLine_def size_t_def)

text \<open>
  Claim C7 (empty pattern). With the empty pattern \<^verbatim>\<open>LocateNextMatch\<close> and
  \<^verbatim>\<open>LocatePreviousMatch\<close> return the index they were given, for every document and every index.
\<close>

theorem Locate_empty_pattern_identity:
  "LocateNextMatch lines i [] = Inr i \<and> LocatePreviousMatch lines i [] = Inr i"
  by (simp add: LocateNextMatch_def LocatePreviousMatch_def)

text \<open>
  Claim C8 (round trip), as stated: with exactly one matching line and \<open>i\<close> another line,
  \<^verbatim>\<open>LocatePreviousMatch(LocateNextMatch(i, p), p)\<close> is \<open>i\<close>. It is not: on \<^verbatim>\<open>["b", "a"]\<close> from
  line 0 the forward search reaches line 1, the only match, and the backward search from
  there wraps to the same line.
\<close>

theorem Locate_round_trip_counterexample:
  "matches ''a'' ([''b'', ''a''] ! 1) \<and> \<not> matches ''a'' ([''b'', ''a''] ! 0)
   \<and> LocateNextMatch [''b'', ''a''] 0 ''a'' = Inr 1
   \<and> LocatePreviousMatch [''b'', ''a''] 1 ''a'' = Inr 1
   \<and> LocatePreviousMatch [''b'', ''a''] 1 ''a'' \<noteq> Inr 0"
  by (simp add: LocateNextMatch_def LocatePreviousMatch_def FindNextMatchingLine_def
      FindPreviousMatchingLine_def size_t_def ptrdiff_t_def int_cast_def find_if.simps
      matches_def)

text \<open>
  Claim C8, amended: on a document in which exactly one line \<open>m\<close> matches the pattern (which
  is not empty), from every other line \<open>i\<close> of the document
  \<^verbatim>\<open>LocatePreviousMatch(LocateNextMatch(i, p), p)\<close> is \<open>m\<close>, the matching line.
\<close>

theorem Locate_round_trip_unique_match:
  assumes "pat \<noteq> []" "length lines < 2 ^ 31"
    and m: "m < length lines" "matches pat (lines ! m)"
    and uniq: "\<forall>j < length lines. matches pat (lines ! j) \<longrightarrow> j = m"
    and i: "0 \<le> i" "i < int (length lines)" "i \<noteq> int m"
  shows "and_then (LocateNextMatch lines i pat) (\<lambda>k. LocatePreviousMatch lines k pat)
         = Inr (int m)"
proof -
  let ?n = "int (length lines)"
  have ne: "lines \<noteq> []" using m(1) by auto
  have only: "j = int m" if "0 \<le> j" "j < ?n" "matches pat (lines ! nat j)" for j
  proof -
    have "nat j < length lines" using that by linarith
    then have "nat j = m" using uniq that(3) by blast
    then show ?thesis using that(1) by simp
  qed
  have cast: "int_cast ?n = ?n" using assms(2) by (intro int_cast_id) auto
  have prev: "FindPreviousMatchingLine lines c pat = Inr (int m)" if c1: "int m < c" and c2: "c \<le> ?n" for c
  proof -
    obtain r where r: "FindPreviousMatchingLine lines c pat = Inr r"
        "r = - 1 \<or> (0 \<le> r \<and> r < c \<and> matches pat (lines ! nat r))"
        "\<forall>j. r < j \<and> j < c \<longrightarrow> \<not> matches pat (lines ! nat j)"
      using FindPreviousMatchingLine_scan [OF assms(2) c2, of pat] by blast
    have "\<not> (r < int m \<and> int m < c)" using r(3) m(2) by fastforce
    then have "r \<noteq> - 1" "int m \<le> r" using c1 by auto
    then have "r = int m" using r(2) only c2 by auto
    then show ?thesis using r(1) by simp
  qed
  have prev_none: "FindPreviousMatchingLine lines c pat = Inr (- 1)" if c3: "c \<le> int m" for c
  proof -
    have c: "c \<le> ?n" using c3 m(1) by linarith
    obtain r where r: "FindPreviousMatchingLine lines c pat = Inr r"
        "r = - 1 \<or> (0 \<le> r \<and> r < c \<and> matches pat (lines ! nat r))"
      using FindPreviousMatchingLine_scan [OF assms(2) c, of pat] by blast
    have "r = - 1"
    proof (rule ccontr)
      assume "r \<noteq> - 1"
      then have "0 \<le> r" "r < c" "matches pat (lines ! nat r)" using r(2) by auto
      then have "r = int m" using only c by auto
      then show False using \<open>r < c\<close> c3 by simp
    qed
    then show ?thesis using r(1) by simp
  qed
  have returns: "LocatePreviousMatch lines (int m) pat = Inr (int m)"
    using assms(1) m(1)
    by (simp add: LocatePreviousMatch_def prev_none [of "int m"] cast prev [of "int (length lines)"])
  show ?thesis
  proof (cases "i < int m")
    case True
    obtain r where r: "FindNextMatchingLine lines i pat = Inr r"
        "r = - 1 \<or> (i < r \<and> r < ?n \<and> matches pat (lines ! nat r))"
        "\<forall>j. i < j \<and> j < (if r = - 1 then ?n else r) \<longrightarrow> \<not> matches pat (lines ! nat j)"
      using FindNextMatchingLine_scan [OF assms(2) ne i(1), of pat] i(2) by auto
    have "\<not> (i < int m \<and> int m < (if r = - 1 then ?n else r))"
      using r(3) m(2) by fastforce
    then have "r \<noteq> - 1" using True m(1) by auto
    then have "r = int m" using r(2) only i(1) by auto
    then have "LocateNextMatch lines i pat = Inr (int m)"
      using assms(1) r(1) by (simp add: LocateNextMatch_def)
    then show ?thesis using returns by simp
  next
    case False
    then have gt: "int m < i" using i(3) by simp
    obtain r where r: "FindNextMatchingLine lines i pat = Inr r"
        "r = - 1 \<or> (i < r \<and> r < ?n \<and> matches pat (lines ! nat r))"
      using FindNextMatchingLine_scan [OF assms(2) ne i(1), of pat] i(2) by auto
    have "r = - 1"
    proof (rule ccontr)
      assume "r \<noteq> - 1"
      then have "i < r" "r < ?n" "matches pat (lines ! nat r)" using r(2) by auto
      then have "r = int m" using only i(1) by auto
      then show False using \<open>i < r\<close> gt by simp
    qed
    then have "LocateNextMatch lines i pat = Inr i"
      using assms(1) r(1) by (simp add: LocateNextMatch_def FindNextMatchingLine_minus_one)
    moreover have "LocatePreviousMatch lines i pat = Inr (int m)"
      using assms(1) gt i(2) by (simp add: LocatePreviousMatch_def prev [of i])
    ultimately show ?thesis by simp
  qed
qed

theorem Locate_round_trip_unique_match_witness:
  "and_then (LocateNextMatch [''b'', ''a'', ''c''] 0 ''a'')
     (\<lambda>k. LocatePreviousMatch [''b'', ''a'', ''c''] k ''a'') = Inr 1
   \<and> and_then (LocateNextMatch [''b'', ''a'', ''c''] 2 ''a'')
     (\<lambda>k. LocatePreviousMatch [''b'', ''a'', ''c''] k ''a'') = Inr 1"
proof -
  let ?d = "[''b'', ''a'', ''c'']"
  have u: "\<forall>j < length ?d. matches ''a'' (?d ! j) \<longrightarrow> j = 1"
  proof (intro allI impI)
    fix j assume "j < length ?d" "matches ''a'' (?d ! j)"
    then have "j = 0 \<or> j = 1 \<or> j = 2" by auto
    then show "j = 1" using \<open>matches ''a'' (?d ! j)\<close> by (auto simp: matches_def)
  qed
  have h: "''a'' \<noteq> []" "length ?d < 2 ^ 31" "1 < length ?d" "matches ''a'' (?d ! 1)"
    by (simp_all add: matches_def)
  show ?thesis
    using Locate_round_trip_unique_match [OF h u, of 0]
      Locate_round_trip_unique_match [OF h u, of 2]
    by simp
qed

text \<open>
  Claim C5 (empty document). The claim expects every search on the empty document to report
  no match without reading outside the vector, and the clamp to give line 0. On the empty
  document \<^verbatim>\<open>lines.size() - 1\<close> is the largest \<^verbatim>\<open>std::size_t\<close>, so the guard of
  \<^verbatim>\<open>FindNextMatchingLine\<close> lets line 0 through and \<^verbatim>\<open>std::find_if\<close> starts one past the end;
  \<^verbatim>\<open>FindPreviousMatchingLine\<close> from line 1 starts one before \<^verbatim>\<open>crbegin()\<close>; and the clamp of
  the top line is \<^verbatim>\<open>std::clamp(v, 0, -1)\<close>.
\<close>

theorem empty_document_searches_fault:
  "FindNextMatchingLine [] 0 ''a'' = Inl IteratorOutOfRange
   \<and> FindPreviousMatchingLine [] 1 ''a'' = Inl IteratorOutOfRange
   \<and> LocateNextMatch [] 0 ''a'' = Inl IteratorOutOfRange
   \<and> LocatePreviousMatch [] 1 ''a'' = Inl IteratorOutOfRange
   \<and> clamp 0 0 (Size [] - 1) = Inl ClampBoundsReversed"
  by (simp add: LocateNextMatch_def LocatePreviousMatch_def FindNextMatchingLine_def
      FindPreviousMatchingLine_def size_t_def ptrdiff_t_def find_if.simps clamp_def Size_def
      int_cast_def)

section \<open>The event handler\<close>

text \<open>
  Claim C4 (clamp after every event). The claim expects \<open>0 \<le> topLine \<le> max 0 (size - 1)\<close>
  after every event, the empty document included. There the handler ends in
  \<^verbatim>\<open>std::clamp(topLine_, 0, -1)\<close>, whose bounds are reversed: from no state and on no event does
  it return a state, and from the initial state an ArrowDown reaches exactly this clamp.
\<close>

theorem OnEvent_empty_document_faults:
  "isl (OnEvent term [] e s)
   \<and> OnEvent \<lparr>dimx = 80, dimy = 24\<rparr> [] ArrowDown initial = Inl ClampBoundsReversed"
proof
  show "isl (OnEvent term [] e s)"
    unfolding OnEvent_def by (rule isl_and_then) (rule clamp_view_empty)
  show "OnEvent \<lparr>dimx = 80, dimy = 24\<rparr> [] ArrowDown initial = Inl ClampBoundsReversed"
    by (simp add: OnEvent_def on_capture_key_def on_navigation_key_def initial_def
        CmdNextLine_def clamp_view_def clamp_def Size_def int_cast_def ViewWidth_def)
qed

text \<open>
  Claim C3 (Return with an unresolved match), as stated: while capturing with
  \<^verbatim>\<open>matchingLine_ == -1\<close>, Return leaves the top line unchanged. It does not: from line 2 of the
  example document the top line becomes 0.
\<close>

theorem Return_unresolved_counterexample:
  "isCapturing (initial\<lparr>isCapturing := True, topLine := 2\<rparr>)
   \<and> matchingLine (initial\<lparr>isCapturing := True, topLine := 2\<rparr>) = - 1
   \<and> topLine (initial\<lparr>isCapturing := True, topLine := 2\<rparr>) = 2
   \<and> OnEvent \<lparr>dimx = 80, dimy = 24\<rparr> example_document Return
        (initial\<lparr>isCapturing := True, topLine := 2\<rparr>) = Inr initial
   \<and> topLine initial = 0"
  by (simp add: OnEvent_def on_capture_key_def on_navigation_key_def CmdEndCapture_def
      clamp_view_def clamp_def ViewWidth_def Size_def int_cast_def initial_def
      example_document_def)

text \<open>
  Claim C3, amended: on a document that is not empty, Return while capturing with
  \<^verbatim>\<open>matchingLine_ == -1\<close> leaves capture mode and sets the top line to 0.
  \<^verbatim>\<open>CmdEndCapture\<close> assigns \<^verbatim>\<open>-1\<close> to \<^verbatim>\<open>topLine_\<close> without a test and the clamp that ends the
  handler raises it to 0.
\<close>

theorem Return_unresolved_jumps_to_top:
  assumes "isCapturing s" "matchingLine s = - 1"
    and "doc \<noteq> []" "length doc < 2 ^ 31" "1 \<le> dimx term"
  shows "\<exists>s'. OnEvent term doc Return s = Inr s' \<and> \<not> isCapturing s' \<and> topLine s' = 0"
proof -
  have sz: "Size doc = int (length doc)" using assms(4) by (rule Size_eq)
  show ?thesis
    using assms(1,2,3,5)
    by (simp add: OnEvent_def on_capture_key_def on_navigation_key_def CmdEndCapture_def
        clamp_view_def clamp_def ViewWidth_def sz)
qed

theorem Return_unresolved_jumps_to_top_witness:
  "\<exists>s'. OnEvent \<lparr>dimx = 80, dimy = 24\<rparr> example_document Return
           (initial\<lparr>isCapturing := True, topLine := 2\<rparr>) = Inr s'
        \<and> \<not> isCapturing s' \<and> topLine s' = 0"
  using Return_unresolved_jumps_to_top [of "initial\<lparr>isCapturing := True, topLine := 2\<rparr>"
      example_document "\<lparr>dimx = 80, dimy = 24\<rparr>"]
  by (simp add: initial_def example_document_def)

text \<open>
  Claim C6 (filtered PageDown scenario). On the example document with filtering on, pattern
  \<^verbatim>\<open>"alpha"\<close>, a view height of 3 and the top line 0, PageDown finds the hits 2 and 4, counts
  2 hits, which is the view height minus one, and sets the top line to 4.
\<close>

theorem filtered_PageDown_scenario:
  assumes "isFiltering s" "pattern s = ''alpha''" "topLine s = 0"
    and "dimy term = 3" "1 \<le> dimx term"
  shows "FindNextMatchingLine example_document (0 + 1) ''alpha'' = Inr 2
       \<and> FindNextMatchingLine example_document (2 + 1) ''alpha'' = Inr 4
       \<and> NextFilteredScan example_document ''alpha'' 3 0 0 = Inr (4, 2)
       \<and> (\<exists>s'. OnEvent term example_document PgDown s = Inr s' \<and> topLine s' = 4)"
proof -
  have sz: "Size example_document = 5"
    by (simp add: Size_def example_document_def int_cast_def)
  have "\<exists>s'. OnEvent term example_document PgDown s = Inr s' \<and> topLine s' = 4"
    using assms
    by (simp add: OnEvent_def on_capture_key_def on_navigation_key_def CmdNextFilteredPage_def
        ViewHeight_def ViewWidth_def example_NextFilteredScan clamp_view_def clamp_def sz)
  then show ?thesis by (simp add: example_scan example_NextFilteredScan)
qed

theorem filtered_PageDown_scenario_witness:
  "\<exists>s'. OnEvent \<lparr>dimx = 80, dimy = 3\<rparr> example_document PgDown
          (initial\<lparr>isFiltering := True, pattern := ''alpha''\<rparr>) = Inr s' \<and> topLine s' = 4"
  using filtered_PageDown_scenario [of "initial\<lparr>isFiltering := True, pattern := ''alpha''\<rparr>"
      "\<lparr>dimx = 80, dimy = 3\<rparr>"]
  by (simp add: initial_def)

text \<open>
  Claim C10 (Backspace down to the empty pattern). While capturing with a pattern of one
  character and a top line before the last line, Backspace empties the pattern and recomputes
  \<^verbatim>\<open>matchingLine_\<close> to the line after the top line; Return then moves the top line there.
\<close>

theorem Backspace_to_empty_pattern:
  assumes "isCapturing s" "length (pattern s) = 1"
    and "length doc < 2 ^ 31" "0 \<le> topLine s" "topLine s < Size doc - 1"
    and "1 \<le> dimx term"
  shows "\<exists>s1 s2. OnEvent term doc Backspace s = Inr s1
            \<and> pattern s1 = [] \<and> matchingLine s1 = topLine s + 1
            \<and> topLine s1 = topLine s \<and> isCapturing s1
            \<and> OnEvent term doc Return s1 = Inr s2
            \<and> topLine s2 = topLine s + 1 \<and> \<not> isCapturing s2"
proof -
  have sz: "Size doc = int (length doc)" using assms(3) by (rule Size_eq)
  have lt: "topLine s < int (length doc) - 1" using assms(5) sz by simp
  have ne: "doc \<noteq> []" using assms(4) lt by auto
  have bl: "butlast (pattern s) = []" using assms(2) by (cases "pattern s") auto
  have fn: "FindNextMatchingLine doc (topLine s) [] = Inr (topLine s + 1)"
    using assms(3,4) lt by (rule FindNextMatchingLine_empty_pattern)
  let ?le = "if leftEdge s < 0 then 0 else if dimx term - 1 < leftEdge s then dimx term - 1 else leftEdge s"
  let ?s1 = "s\<lparr>pattern := [], matchingLine := topLine s + 1, leftEdge := ?le\<rparr>"
  have e1: "OnEvent term doc Backspace s = Inr ?s1"
    using assms(1,2,4,6) lt ne
    by (simp add: OnEvent_def on_capture_key_def on_navigation_key_def CmdBackspaceCapture_def
        UpdateMatchFromPattern_def bl fn clamp_view_def clamp_def ViewWidth_def sz)
  let ?s2 = "?s1\<lparr>isCapturing := False, topLine := topLine s + 1\<rparr>"
  have e2: "OnEvent term doc Return ?s1 = Inr ?s2"
    using assms(1,4,6) lt ne
    by (simp add: OnEvent_def on_capture_key_def on_navigation_key_def CmdEndCapture_def
        clamp_view_def clamp_def ViewWidth_def sz)
  show ?thesis using e1 e2 assms(1) by simp
qed

theorem Backspace_to_empty_pattern_witness:
  "\<exists>s1 s2. OnEvent \<lparr>dimx = 80, dimy = 24\<rparr> example_document Backspace
              (initial\<lparr>isCapturing := True, pattern := ''x'', topLine := 1\<rparr>) = Inr s1
            \<and> pattern s1 = [] \<and> matchingLine s1 = 2 \<and> topLine s1 = 1 \<and> isCapturing s1
            \<and> OnEvent \<lparr>dimx = 80, dimy = 24\<rparr> example_document Return s1 = Inr s2
            \<and> topLine s2 = 2 \<and> \<not> isCapturing s2"
  using Backspace_to_empty_pattern [of "initial\<lparr>isCapturing := True, pattern := ''x'', topLine := 1\<rparr>"
      example_document "\<lparr>dimx = 80, dimy = 24\<rparr>"]
  by (simp add: initial_def example_document_def Size_def int_cast_def)

text \<open>
  Claim C9 (navigation while capturing). A special key other than Return, Escape and
  Backspace (the arrows, Home, End, PageUp, PageDown, Ctrl+Home, Ctrl+End among them) is
  handled while capturing exactly as while browsing: the two resulting states differ in
  \<^verbatim>\<open>isCapturing_\<close> only, and \<^verbatim>\<open>pattern_\<close> and \<^verbatim>\<open>matchingLine_\<close> keep their values.
\<close>

theorem navigation_while_capturing:
  assumes "\<not> is_character e" "e \<noteq> Return" "e \<noteq> Escape" "e \<noteq> Backspace"
  shows "OnEvent term doc e (s\<lparr>isCapturing := True\<rparr>)
         = map_sum id (\<lambda>s'. s'\<lparr>isCapturing := True\<rparr>)
             (OnEvent term doc e (s\<lparr>isCapturing := False\<rparr>))
       \<and> (\<forall>s'. OnEvent term doc e (s\<lparr>isCapturing := True\<rparr>) = Inr s'
              \<longrightarrow> pattern s' = pattern s \<and> matchingLine s' = matchingLine s \<and> isCapturing s')"
proof
  let ?nav = "on_navigation_key term doc e (s\<lparr>isCapturing := False\<rparr>)"
  have "s\<lparr>isCapturing := True\<rparr> = (s\<lparr>isCapturing := False\<rparr>)\<lparr>isCapturing := True\<rparr>" by simp
  then have nav: "on_navigation_key term doc e (s\<lparr>isCapturing := True\<rparr>) = map_sum id (\<lambda>s'. s'\<lparr>isCapturing := True\<rparr>) ?nav"
    using on_navigation_key_capturing [where s = "s\<lparr>isCapturing := False\<rparr>" and b = True] by simp
  show "OnEvent term doc e (s\<lparr>isCapturing := True\<rparr>)
         = map_sum id (\<lambda>s'. s'\<lparr>isCapturing := True\<rparr>)
             (OnEvent term doc e (s\<lparr>isCapturing := False\<rparr>))"
    unfolding OnEvent_special [OF assms] nav
    by (cases ?nav) (simp_all add: clamp_view_capturing)
  show "\<forall>s'. OnEvent term doc e (s\<lparr>isCapturing := True\<rparr>) = Inr s'
              \<longrightarrow> pattern s' = pattern s \<and> matchingLine s' = matchingLine s \<and> isCapturing s'"
  proof (intro allI impI)
    fix s' assume "OnEvent term doc e (s\<lparr>isCapturing := True\<rparr>) = Inr s'"
    then obtain s1 where s1: "on_navigation_key term doc e (s\<lparr>isCapturing := True\<rparr>) = Inr s1"
        "clamp_view term doc s1 = Inr s'"
      unfolding OnEvent_special [OF assms]
      by (cases "on_navigation_key term doc e (s\<lparr>isCapturing := True\<rparr>)") simp_all
    show "pattern s' = pattern s \<and> matchingLine s' = matchingLine s \<and> isCapturing s'"
      using on_navigation_key_keeps [OF s1(1)] clamp_view_keeps [OF s1(2)] by simp
  qed
qed

theorem navigation_while_capturing_witness:
  "OnEvent \<lparr>dimx = 80, dimy = 24\<rparr> example_document ArrowDown (initial\<lparr>isCapturing := True\<rparr>)
     = Inr (initial\<lparr>isCapturing := True, topLine := 1\<rparr>)
   \<and> OnEvent \<lparr>dimx = 80, dimy = 24\<rparr> example_document ArrowDown (initial\<lparr>isCapturing := False\<rparr>)
     = Inr (initial\<lparr>topLine := 1\<rparr>)"
proof -
  have key: "\<not> is_character ArrowDown" "ArrowDown \<noteq> Return" "ArrowDown \<noteq> Escape"
      "ArrowDown \<noteq> Backspace"
    by simp_all
  have browsing:
    "OnEvent \<lparr>dimx = 80, dimy = 24\<rparr> example_document ArrowDown (initial\<lparr>isCapturing := False\<rparr>)
       = Inr (initial\<lparr>topLine := 1\<rparr>)"
    by (simp add: OnEvent_def on_capture_key_def on_navigation_key_def CmdNextLine_def
        clamp_view_def clamp_def ViewWidth_def Size_def int_cast_def initial_def
        example_document_def)
  show ?thesis
    using navigation_while_capturing [OF key, of "\<lparr>dimx = 80, dimy = 24\<rparr>" example_document initial]
      browsing
    by (simp add: initial_def)
qed

text \<open>
  Claim C2 (filtered PageUp), as stated: with too few matches above, PageUp leaves the top
  line unchanged, as PageDown does. It does not: on the example document with view height 3,
  from line 3 the scan finds line 0 only (one hit, two are needed), and the top line becomes 0.
\<close>

theorem filtered_PageUp_counterexample:
  "PreviousFilteredScan example_document ''alpha'' 3 3 0 = Inr (- 1, 1)
   \<and> OnEvent \<lparr>dimx = 80, dimy = 3\<rparr> example_document PgUp
        (initial\<lparr>isFiltering := True, pattern := ''alpha'', topLine := 3\<rparr>)
      = Inr (initial\<lparr>isFiltering := True, pattern := ''alpha'', topLine := 0\<rparr>)"
proof -
  have f1: "FindPreviousMatchingLine example_document 2 ''alpha'' = Inr 0"
    by (simp add: FindPreviousMatchingLine_def example_document_def size_t_def ptrdiff_t_def
        find_if.simps matches_def int_cast_def)
  have f2: "FindPreviousMatchingLine example_document (- 1) ''alpha'' = Inr (- 1)"
    by (simp add: FindPreviousMatchingLine_def)
  have "PreviousFilteredScan example_document ''alpha'' 3 3 0
        = PreviousFilteredScan example_document ''alpha'' 3 0 1"
    by (subst PreviousFilteredScan.simps) (simp add: f1)
  also have "\<dots> = PreviousFilteredScan example_document ''alpha'' 3 (- 1) 1"
    by (subst PreviousFilteredScan.simps) (simp add: f2)
  also have "\<dots> = Inr (- 1, 1)"
    by (subst PreviousFilteredScan.simps) simp
  finally have scan: "PreviousFilteredScan example_document ''alpha'' 3 3 0 = Inr (- 1, 1)" .
  have sz: "Size example_document = 5"
    by (simp add: Size_def example_document_def int_cast_def)
  show ?thesis
    by (simp add: scan OnEvent_def on_capture_key_def on_navigation_key_def
        CmdPreviousFilteredPage_def ViewHeight_def ViewWidth_def clamp_view_def clamp_def sz
        initial_def)
qed

text \<open>
  Claim C2, amended: filtered PageUp scans backwards from the top line counting matching
  lines; each hit is the nearest matching line strictly before \<^verbatim>\<open>line - 1\<close>, and the scan stops
  after \<^verbatim>\<open>viewHeight - 1\<close> hits or when the document has no further hit. When the count is not
  \<^verbatim>\<open>viewHeight - 1\<close> (too few matches) the top line is set to 0; when it is, the top line is
  set to the last hit (the old top line when nothing was scanned). Filtered PageDown is the
  mirror, with the nearest matching line strictly after \<^verbatim>\<open>line + 1\<close>, except that with too
  few matches it leaves the top line unchanged.
\<close>

theorem filtered_PageUp_insufficient_goes_to_top:
  assumes "isFiltering s" "length doc < 2 ^ 31"
    and "0 \<le> topLine s" "topLine s < int (length doc)" "1 \<le> dimx term"
  shows "(\<exists>hs s'. OnEvent term doc PgUp s = Inr s'
           \<and> previous_hits doc (pattern s) (topLine s) hs
           \<and> (hs \<noteq> [] \<longrightarrow> int (length hs) \<le> dimy term - 1)
           \<and> (int (length hs) < dimy term - 1 \<longrightarrow>
                 no_previous_hit doc (pattern s) (last (topLine s # hs)))
           \<and> (int (length hs) = dimy term - 1 \<longrightarrow> topLine s' = last (topLine s # hs))
           \<and> (int (length hs) \<noteq> dimy term - 1 \<longrightarrow> topLine s' = 0))
       \<and> (\<exists>hs s'. OnEvent term doc PgDown s = Inr s'
           \<and> next_hits doc (pattern s) (topLine s) hs
           \<and> (hs \<noteq> [] \<longrightarrow> int (length hs) \<le> dimy term - 1)
           \<and> (int (length hs) < dimy term - 1 \<longrightarrow>
                 no_next_hit doc (pattern s) (last (topLine s # hs)))
           \<and> (int (length hs) = dimy term - 1 \<longrightarrow> topLine s' = last (topLine s # hs))
           \<and> (int (length hs) \<noteq> dimy term - 1 \<longrightarrow> topLine s' = topLine s))"
  using filtered_PageUp_hits [OF assms] filtered_PageDown_hits [OF assms] by (rule conjI)

theorem filtered_PageUp_insufficient_goes_to_top_witness:
  "(\<exists>s'. OnEvent \<lparr>dimx = 80, dimy = 3\<rparr> example_document PgUp
           (initial\<lparr>isFiltering := True, pattern := ''alpha'', topLine := 3\<rparr>) = Inr s'
         \<and> topLine s' = 0)
   \<and> (\<exists>s'. OnEvent \<lparr>dimx = 80, dimy = 3\<rparr> example_document PgDown
           (initial\<lparr>isFiltering := True, pattern := ''alpha'', topLine := 3\<rparr>) = Inr s'
         \<and> topLine s' = 3)"
proof -
  let ?s = "initial\<lparr>isFiltering := True, pattern := ''alpha'', topLine := 3\<rparr>"
  let ?t = "\<lparr>dimx = 80, dimy = 3\<rparr>"
  have h: "isFiltering ?s" "length example_document < 2 ^ 31" "0 \<le> topLine ?s"
      "topLine ?s < int (length example_document)" "1 \<le> dimx ?t"
    by (simp_all add: initial_def example_document_def)
  have v: "topLine ?s = 3" "dimy ?t - 1 = 2"
    by (simp_all add: initial_def)
  note both = filtered_PageUp_insufficient_goes_to_top [OF h]
  obtain hs s' where up: "OnEvent ?t example_document PgUp ?s = Inr s'"
      "previous_hits example_document (pattern ?s) 3 hs"
      "int (length hs) \<noteq> 2 \<longrightarrow> topLine s' = 0"
    using both [THEN conjunct1] unfolding v by blast
  have "int (length hs) \<noteq> 2"
  proof
    assume "int (length hs) = 2"
    then obtain h1 h2 where "hs = [h1, h2]"
      by (cases hs; cases "tl hs") auto
    then have "h1 < 3 - 1" "0 \<le> h2" "h2 < h1 - 1"
      using up(2) by (simp_all add: is_previous_hit_def)
    then show False by simp
  qed
  then have first: "\<exists>s'. OnEvent ?t example_document PgUp ?s = Inr s' \<and> topLine s' = 0"
    using up(1,3) by blast
  obtain gs s'' where down: "OnEvent ?t example_document PgDown ?s = Inr s''"
      "next_hits example_document (pattern ?s) 3 gs"
      "int (length gs) \<noteq> 2 \<longrightarrow> topLine s'' = 3"
    using both [THEN conjunct2] unfolding v by blast
  have "gs = []"
  proof (cases gs)
    case Nil
    then show ?thesis .
  next
    case (Cons g rest)
    then have "3 + 1 < g" "g < int (length example_document)"
      using down(2) by (simp_all add: is_next_hit_def)
    then show ?thesis by (simp add: example_document_def)
  qed
  then have "\<exists>s'. OnEvent ?t example_document PgDown ?s = Inr s' \<and> topLine s' = 3"
    using down(1,3) by auto
  with first show ?thesis by (rule conjI)
qed

end
